theory Spec2Isabelle
  imports Complex_Main "HOL-Library.Log_Nat"
begin

section \<open>Data model\<close>

text \<open>
  A Python \<^verbatim>\<open>str\<close> is a sequence of Unicode code points. A code point is modelled as
  its number (\<^verbatim>\<open>ord(letter)\<close>), a string as the list of its code points, so that
  \<open>length\<close> is Python's \<^verbatim>\<open>len\<close> and U+FE0F is one character.
\<close>

type_synonym codepoint = nat
type_synonym str = "codepoint list"

definition ascii :: "string \<Rightarrow> str" where
  "ascii s = map of_char s"

definition NEWLINE :: codepoint where
  "NEWLINE = 10"

definition SPACE :: codepoint where
  "SPACE = 32"

text \<open>\<^verbatim>\<open>b'\xef\xb8\x8f'.decode()\<close>: the UTF-8 bytes EF B8 8F are the code point U+FE0F.\<close>

definition VARIATION_SELECTOR_16 :: codepoint where
  "VARIATION_SELECTOR_16 = 65039"

datatype error = IndexError | ZeroDivisionError | ValueError | NothingToPrint | IntegrityError

text \<open>
  \<^verbatim>\<open>class Font\<close>. The typeface itself is PIL's and fontTools' business; the model keeps
  what the program reads from it: the keys of each of the font's cmap tables, and the two
  cached metrics. The field \<open>letter_width\<close> is the quotient
  \<^verbatim>\<open>getsize(example)[0] / len(example)\<close> of the two integers; Python's division rounds
  it to a float, and the program only ever sees that float, \<open>float_width\<close> below.
  \<^verbatim>\<open>letter_height\<close> is \<^verbatim>\<open>getsize(example)[1]\<close>, an integer number of pixels.

  Python compares \<^verbatim>\<open>Font\<close> objects by identity (\<^verbatim>\<open>current_font == font\<close>); the model
  compares the records.
\<close>

record font =
  path :: string
  cmap_tables :: "codepoint list list"
  letter_width :: rat
  letter_height :: int

text \<open>\<^verbatim>\<open>any(ord(letter) in table.cmap.keys() for table in self.fnt['cmap'].tables)\<close>\<close>

definition has_symbol :: "font \<Rightarrow> codepoint \<Rightarrow> bool" where
  "has_symbol f letter = (\<exists>table \<in> set (cmap_tables f). letter \<in> set table)"

text \<open>
  \<^verbatim>\<open>class TextProcessor\<close>. The class attributes \<^verbatim>\<open>PIXELS_PER_LINE\<close> (20 in the source)
  and \<^verbatim>\<open>Font.FONT_SIZE\<close> (136 in the source) are fields of the model, so that the
  functions can also be read at the width 100 of the specification's test set;
  \<^verbatim>\<open>IMAGE_PIX_WIDTH = PIXELS_PER_LINE * Font.FONT_SIZE\<close>.
\<close>

record text_processor =
  fonts :: "font list"
  PIXELS_PER_LINE :: nat
  FONT_SIZE :: nat

definition IMAGE_PIX_WIDTH :: "text_processor \<Rightarrow> int" where
  "IMAGE_PIX_WIDTH tp = int (PIXELS_PER_LINE tp * FONT_SIZE tp)"

type_synonym token = "codepoint \<times> font"
type_synonym word = "str \<times> font"
type_synonym line = "word list"

section \<open>Python primitives\<close>

text \<open>\<^verbatim>\<open>text.strip(chars)\<close>: drop the leading and the trailing characters that are in \<open>chars\<close>.\<close>

definition strip :: "str \<Rightarrow> str \<Rightarrow> str" where
  "strip chars s =
     rev (dropWhile (\<lambda>c. c \<in> set chars) (rev (dropWhile (\<lambda>c. c \<in> set chars) s)))"

text \<open>\<^verbatim>\<open>int(x)\<close> on a number: truncation towards zero.\<close>

definition py_int :: "rat \<Rightarrow> int" where
  "py_int x = (if 0 \<le> x then \<lfloor>x\<rfloor> else \<lceil>x\<rceil>)"

text \<open>
  Python's \<^verbatim>\<open>float\<close> is the IEEE 754 binary64 format, and every operation returns the
  exact result rounded to the nearest float, ties to the even significand. A float is
  modelled as the rational it stands for, and \<open>fl\<close> is the rounding: with \<open>ilog2 a\<close> the
  integer \<open>L\<close> such that \<open>2^L \<le> a < 2^(L+1)\<close>, the floats near \<open>x\<close> are the multiples of
  \<open>2^(L - 52)\<close>. Overflow to infinity and the subnormal range, both far from any pixel
  count, are left out. An \<^verbatim>\<open>int\<close> operand of a float operation is converted to a
  float first, by the same rounding (exact below \<open>2^53\<close>); the true division of two
  \<^verbatim>\<open>int\<close>s rounds their exact quotient.
\<close>

definition round_half_even :: "rat \<Rightarrow> int" where
  "round_half_even x =
     (let f = \<lfloor>x\<rfloor>; d = x - of_int f
      in if d < 1 / 2 then f else if 1 / 2 < d then f + 1 else if even f then f else f + 1)"

definition ilog2 :: "rat \<Rightarrow> int" where
  "ilog2 a = (if 1 \<le> a then int (floorlog 2 (nat \<lfloor>a\<rfloor>)) - 1
              else - int (floorlog 2 (nat (\<lceil>1 / a\<rceil> - 1))))"

definition fl :: "rat \<Rightarrow> rat" where
  "fl x = (if x = 0 then 0
           else (let e = ilog2 \<bar>x\<bar> - 52
                 in of_int (round_half_even (x / 2 powi e)) * 2 powi e))"

text \<open>\<^verbatim>\<open>font.letter_width\<close>, the float the true division returns.\<close>

definition float_width :: "font \<Rightarrow> rat" where
  "float_width f = fl (letter_width f)"

text \<open>
  \<^verbatim>\<open>s[i:j]\<close>: a negative bound counts from the end, and both bounds are clipped to
  \<open>0 .. len(s)\<close>.
\<close>

definition slice_bound :: "int \<Rightarrow> int \<Rightarrow> nat" where
  "slice_bound n i = nat (min n (max 0 (if i < 0 then i + n else i)))"

definition py_slice :: "'a list \<Rightarrow> int \<Rightarrow> int \<Rightarrow> 'a list" where
  "py_slice s i j =
     (let lo = slice_bound (int (length s)) i; hi = slice_bound (int (length s)) j
      in take (hi - lo) (drop lo s))"

section \<open>\<^verbatim>\<open>TextProcessor.letters\<close>\<close>

text \<open>
  The inner loop \<^verbatim>\<open>for font in self.fonts: if font.has_symbol(letter): ... break\<close>;
  \<open>None\<close> is the loop's \<^verbatim>\<open>else\<close> branch (no font has the symbol).
\<close>

fun find_font :: "font list \<Rightarrow> codepoint \<Rightarrow> font option" where
  "find_font [] letter = None"
| "find_font (font # rest) letter =
     (if has_symbol font letter then Some font else find_font rest letter)"

text \<open>One round of the outer loop; \<^verbatim>\<open>self.fonts[0]\<close> raises on an empty list.\<close>

definition letters_step :: "font list \<Rightarrow> token list \<Rightarrow> codepoint \<Rightarrow> error + token list" where
  "letters_step fnts acc letter =
     (case find_font fnts letter of
        Some font \<Rightarrow> Inr (acc @ [(letter, font)])
      | None \<Rightarrow>
          if letter = NEWLINE then
            (case fnts of [] \<Rightarrow> Inl IndexError | f0 # _ \<Rightarrow> Inr (acc @ [(NEWLINE, f0)]))
          else if letter = VARIATION_SELECTOR_16 then Inr acc
          else Inr acc)"

fun letters_loop :: "font list \<Rightarrow> token list \<Rightarrow> str \<Rightarrow> error + token list" where
  "letters_loop fnts acc [] = Inr acc"
| "letters_loop fnts acc (letter # rest) =
     (case letters_step fnts acc letter of
        Inl e \<Rightarrow> Inl e
      | Inr acc' \<Rightarrow> letters_loop fnts acc' rest)"

definition letters :: "text_processor \<Rightarrow> str \<Rightarrow> error + token list" where
  "letters tp text = letters_loop (fonts tp) [] (strip [SPACE, NEWLINE] text)"

section \<open>\<^verbatim>\<open>TextProcessor.words\<close>\<close>

text \<open>The three variables the closure \<^verbatim>\<open>new_word\<close> and the loop share.\<close>

record joiner =
  emitted :: "word list"
  current_font :: font
  current_word :: str

text \<open>
  \<^verbatim>\<open>new_word(font_)\<close>: dump the buffer, if it is not empty, tagged with the argument
  (\<open>font'\<close> here).
\<close>

definition new_word :: "font \<Rightarrow> joiner \<Rightarrow> joiner" where
  "new_word font' st =
     (if current_word st \<noteq> []
      then st\<lparr>emitted := emitted st @ [(current_word st, font')], current_word := []\<rparr>
      else st)"

text \<open>
  The tail of the loop body, from \<^verbatim>\<open>if current_font == font\<close> on. A space reaches it
  too: only the newline branch ends in \<^verbatim>\<open>continue\<close>.
\<close>

definition append_letter :: "joiner \<Rightarrow> token \<Rightarrow> joiner" where
  "append_letter st tok =
     (case tok of (letter, font) \<Rightarrow>
        if current_font st = font
        then st\<lparr>current_word := current_word st @ [letter]\<rparr>
        else (let st1 = new_word font st
              in st1\<lparr>current_word := current_word st1 @ [letter], current_font := font\<rparr>))"

definition words_step :: "joiner \<Rightarrow> token \<Rightarrow> joiner" where
  "words_step st tok =
     (case tok of (letter, font) \<Rightarrow>
        if letter = NEWLINE \<or> letter = SPACE then
          (let st1 = new_word (current_font st) st in
           if letter = NEWLINE
           then new_word font (st1\<lparr>current_word := current_word st1 @ [letter]\<rparr>)
           else append_letter st1 tok)
        else append_letter st tok)"

text \<open>\<^verbatim>\<open>letters[0][1]\<close> raises IndexError on an empty token list.\<close>

definition words :: "token list \<Rightarrow> error + word list" where
  "words ltrs =
     (case ltrs of
        [] \<Rightarrow> Inl IndexError
      | (_, font0) # _ \<Rightarrow>
          (let st = foldl words_step
                      \<lparr>emitted = [], current_font = font0, current_word = []\<rparr> ltrs
           in Inr (emitted (new_word (current_font st) st))))"

section \<open>\<^verbatim>\<open>TextProcessor.word_table\<close>\<close>

text \<open>
  The two variables the closures \<^verbatim>\<open>newline\<close> and \<^verbatim>\<open>add_word\<close> share. \<open>table\<close> starts
  as \<^verbatim>\<open>[[]]\<close> and only grows, so \<^verbatim>\<open>table[-1]\<close> is \<open>last (table st)\<close>
  (lemma \<open>wrap_loop_table_nonempty\<close> below: the list is never empty).
\<close>

record wrapper =
  table :: "line list"
  line_pix_len :: int

definition newline :: "text_processor \<Rightarrow> wrapper \<Rightarrow> wrapper" where
  "newline tp st =
     (if last (table st) \<noteq> []
      then st\<lparr>table := table st @ [[]], line_pix_len := IMAGE_PIX_WIDTH tp\<rparr>
      else st)"

text \<open>
  \<^verbatim>\<open>add_word(word_, font_)\<close> reads \<^verbatim>\<open>word_pix_length\<close> from the enclosing scope: the
  length of the word being processed, also when \<^verbatim>\<open>word_\<close> is a fragment of it.
\<close>

definition add_word :: "int \<Rightarrow> word \<Rightarrow> wrapper \<Rightarrow> wrapper" where
  "add_word word_pix_length w st =
     st\<lparr>line_pix_len := line_pix_len st - word_pix_length,
        table := butlast (table st) @ [last (table st) @ [w]]\<rparr>"

text \<open>
  \<^verbatim>\<open>int(len(word) * font.letter_width + 1)\<close>: the length converted to a float, a
  float product, a float sum, and the truncation.
\<close>

definition word_pix_length :: "word \<Rightarrow> int" where
  "word_pix_length w =
     py_int (fl (fl (fl (of_nat (length (fst w))) * float_width (snd w)) + 1))"

text \<open>One round of \<^verbatim>\<open>for idx in range(lines_count)\<close>.\<close>

definition add_part :: "text_processor \<Rightarrow> word \<Rightarrow> int \<Rightarrow> wrapper \<Rightarrow> int \<Rightarrow> wrapper" where
  "add_part tp w word_part_len st idx =
     add_word (word_pix_length w)
       (py_slice (fst w) (idx * word_part_len) ((idx + 1) * word_part_len), snd w)
       (newline tp st)"

text \<open>
  One round of \<^verbatim>\<open>for word, font in words\<close>. Both \<^verbatim>\<open>//\<close> are floor divisions of
  integers, which is \<open>div\<close> on \<open>int\<close>, and raise ZeroDivisionError on a zero divisor.
\<close>

definition wrap_step :: "text_processor \<Rightarrow> wrapper \<Rightarrow> word \<Rightarrow> error + wrapper" where
  "wrap_step tp st w =
     (if fst w = [NEWLINE] then Inr (newline tp st)
      else if word_pix_length w \<le> line_pix_len st then Inr (add_word (word_pix_length w) w st)
      else if word_pix_length w \<le> IMAGE_PIX_WIDTH tp
        then Inr (add_word (word_pix_length w) w (newline tp st))
      else if IMAGE_PIX_WIDTH tp = 0 then Inl ZeroDivisionError
      else if letter_height (snd w) = 0 then Inl ZeroDivisionError
      else
        (let lines_count = (word_pix_length w - 1) div IMAGE_PIX_WIDTH tp + 1;
             word_part_len = IMAGE_PIX_WIDTH tp div letter_height (snd w)
         in Inr (foldl (add_part tp w word_part_len) st (map int [0..<nat lines_count]))))"

fun wrap_loop :: "text_processor \<Rightarrow> wrapper \<Rightarrow> word list \<Rightarrow> error + wrapper" where
  "wrap_loop tp st [] = Inr st"
| "wrap_loop tp st (w # ws) =
     (case wrap_step tp st w of
        Inl e \<Rightarrow> Inl e
      | Inr st' \<Rightarrow> wrap_loop tp st' ws)"

text \<open>\<^verbatim>\<open>self.words(self.letters(text))\<close>\<close>

definition text_words :: "text_processor \<Rightarrow> str \<Rightarrow> error + word list" where
  "text_words tp text =
     (case letters tp text of Inl e \<Rightarrow> Inl e | Inr ltrs \<Rightarrow> words ltrs)"

definition wrapper_init :: "text_processor \<Rightarrow> wrapper" where
  "wrapper_init tp = \<lparr>table = [[]], line_pix_len = IMAGE_PIX_WIDTH tp\<rparr>"

definition word_table :: "text_processor \<Rightarrow> str \<Rightarrow> error + line list" where
  "word_table tp text =
     (case text_words tp text of
        Inl e \<Rightarrow> Inl e
      | Inr ws \<Rightarrow>
          (case wrap_loop tp (wrapper_init tp) ws of
             Inl e \<Rightarrow> Inl e
           | Inr st \<Rightarrow> Inr (table st)))"

section \<open>\<^verbatim>\<open>TextProcessor.compile_text\<close>\<close>

text \<open>
  The image is modelled by what the function decides: its size, and the calls of
  \<^verbatim>\<open>draw.text\<close> in order, each with the cursor it is given.
\<close>

record canvas =
  img_size :: "int \<times> int"
  drawn :: "((rat \<times> int) \<times> word) list"

record pen =
  counter :: "rat \<times> int"
  strokes :: "((rat \<times> int) \<times> word) list"

definition draw_word :: "pen \<Rightarrow> word \<Rightarrow> pen" where
  "draw_word p w =
     \<lparr>counter = (fl (fst (counter p) + fl (fl (of_nat (length (fst w))) * float_width (snd w))),
                 snd (counter p)),
      strokes = strokes p @ [(counter p, w)]\<rparr>"

definition draw_line :: "int \<Rightarrow> pen \<Rightarrow> line \<Rightarrow> pen" where
  "draw_line line_heigth p row =
     (let p' = foldl draw_word p row
      in p'\<lparr>counter := (0, snd (counter p') + line_heigth)\<rparr>)"

text \<open>\<^verbatim>\<open>max(...)\<close> of an empty sequence raises ValueError.\<close>

definition compile_text :: "text_processor \<Rightarrow> str \<Rightarrow> error + canvas" where
  "compile_text tp text =
     (case word_table tp text of
        Inl e \<Rightarrow> Inl e
      | Inr tbl \<Rightarrow>
          (case map letter_height (fonts tp) of
             [] \<Rightarrow> Inl ValueError
           | h # hs \<Rightarrow>
               (let line_heigth = foldl max h hs;
                    sz = (int (PIXELS_PER_LINE tp * FONT_SIZE tp),
                          line_heigth * int (length tbl))
                in Inr \<lparr>img_size = sz,
                        drawn = strokes (foldl (draw_line line_heigth)
                                  \<lparr>counter = (0, 0), strokes = []\<rparr> tbl)\<rparr>)))"

section \<open>\<^verbatim>\<open>citizen_print_msg\<close>\<close>

text \<open>
  A PIL image is modelled by where it comes from and its size: a photo the caller
  passes in, the canvas \<^verbatim>\<open>compile_text\<close> returns, or the result of \<^verbatim>\<open>Image.resize\<close>.
\<close>

datatype image = Photo "int \<times> int" | Rendered canvas | Resized "int \<times> int" image

fun image_size :: "image \<Rightarrow> int \<times> int" where
  "image_size (Photo sz) = sz"
| "image_size (Rendered c) = img_size c"
| "image_size (Resized sz _) = sz"

definition CITIZEN_CT_S2000_WIDTH :: int where
  "CITIZEN_CT_S2000_WIDTH = 600"

text \<open>
  \<^verbatim>\<open>resize_img\<close>. \<^verbatim>\<open>img.size[1] / img.size[0]\<close> is a true division: it raises on a
  zero width and returns a float, as the product with the printer's width does.
  Pillow's \<^verbatim>\<open>Image.resize\<close> returns a copy when the size asked for is the image's own,
  and otherwise raises ValueError unless both sides of the new size are at least 1.
\<close>

definition resize_img :: "image \<Rightarrow> error + image" where
  "resize_img img =
     (case image_size img of (w, h) \<Rightarrow>
        if w = 0 then Inl ZeroDivisionError
        else
          (let new_size =
                 (CITIZEN_CT_S2000_WIDTH,
                  py_int (fl (fl (of_int h / of_int w) * of_int CITIZEN_CT_S2000_WIDTH)))
           in if image_size img = new_size then Inr (Resized new_size img)
              else if fst new_size < 1 \<or> snd new_size < 1 then Inl ValueError
              else Inr (Resized new_size img)))"

text \<open>
  What \<^verbatim>\<open>citizen_print_msg\<close> does to the outside, in order: the call of the layout core
  and the calls of the printer's methods.
\<close>

datatype event = CompileText str | PrinterImage image | PrinterText str | PrinterCut

text \<open>\<^verbatim>\<open>not text\<close> on an \<^verbatim>\<open>Optional[str]\<close>: true for \<^verbatim>\<open>None\<close> and for the empty string.\<close>

definition not_text :: "str option \<Rightarrow> bool" where
  "not_text text = (case text of None \<Rightarrow> True | Some s \<Rightarrow> s = [])"

text \<open>The printing loop and the signature: the function's last four lines.\<close>

definition print_all :: "image list \<Rightarrow> str \<Rightarrow> event list" where
  "print_all images_to_print user_name =
     concat (map (\<lambda>i. [PrinterImage i, PrinterText [NEWLINE]]) images_to_print)
     @ [PrinterText (of_char CHR ''@'' # user_name @ [NEWLINE]), PrinterCut]"

text \<open>
  The result is the exception raised, if any, and the events up to it. A PIL image has
  no \<^verbatim>\<open>__bool__\<close> or \<^verbatim>\<open>__len__\<close>, so \<^verbatim>\<open>not img\<close> is \<^verbatim>\<open>img is None\<close>.
\<close>

definition citizen_print_msg ::
  "text_processor \<Rightarrow> str option \<Rightarrow> image option \<Rightarrow> str \<Rightarrow> (error + unit) \<times> event list" where
  "citizen_print_msg tp text img user_name =
     (if not_text text \<and> img = None then (Inl NothingToPrint, [])
      else
        (case (case img of
                 None \<Rightarrow> Inr []
               | Some i \<Rightarrow> (case resize_img i of Inl e \<Rightarrow> Inl e | Inr r \<Rightarrow> Inr [r])) of
           Inl e \<Rightarrow> (Inl e, [])
         | Inr imgs \<Rightarrow>
             if not_text text then (Inr (), print_all imgs user_name)
             else
               (case compile_text tp (the text) of
                  Inl e \<Rightarrow> (Inl e, [CompileText (the text)])
                | Inr c \<Rightarrow>
                    (case resize_img (Rendered c) of
                       Inl e \<Rightarrow> (Inl e, [CompileText (the text)])
                     | Inr r \<Rightarrow>
                         (Inr (), CompileText (the text) # print_all (imgs @ [r]) user_name)))))"

section \<open>\<^verbatim>\<open>db.User\<close>\<close>

text \<open>
  The table \<^verbatim>\<open>user\<close>: \<^verbatim>\<open>name\<close> is the primary key, \<^verbatim>\<open>messages_count\<close> a nullable
  integer column (\<open>None\<close> is SQL's NULL) with the default 1.
\<close>

type_synonym user_table = "string \<rightharpoonup> int option"

definition messages_count_default :: int where
  "messages_count_default = 1"

text \<open>\<^verbatim>\<open>User.create\<close>: the insert fails on a name that is already a key.\<close>

definition create :: "user_table \<Rightarrow> string \<Rightarrow> (error + unit) \<times> user_table" where
  "create db name =
     (case db name of
        None \<Rightarrow> (Inr (), db(name \<mapsto> Some messages_count_default))
      | Some _ \<Rightarrow> (Inl IntegrityError, db))"

text \<open>
  \<^verbatim>\<open>conn.scalar(st)\<close> is \<^verbatim>\<open>None\<close> when no row matches, and also when the row's counter
  is NULL.
\<close>

definition get_msg_count :: "user_table \<Rightarrow> string \<Rightarrow> (error + int) \<times> user_table" where
  "get_msg_count db name =
     (case (case db name of None \<Rightarrow> None | Some c \<Rightarrow> c) of
        Some count \<Rightarrow> (Inr count, db)
      | None \<Rightarrow>
          (case create db name of
             (Inl e, db') \<Rightarrow> (Inl e, db')
           | (Inr _, db') \<Rightarrow> (Inr messages_count_default, db')))"

section \<open>The font sets used in the examples\<close>

text \<open>
  The specification's test set, at the canvas width 100: Font A, 10 pixels wide and 20
  high, with the ASCII letters, the space and the newline; Font B, the fallback, 15
  pixels wide and 25 high, with the one emoji U+1F483.
\<close>

definition font_A :: font where
  "font_A = \<lparr>path = ''A'', cmap_tables = [[10, 32] @ [65..<91] @ [97..<123]],
              letter_width = 10, letter_height = 20\<rparr>"

definition font_B :: font where
  "font_B = \<lparr>path = ''B'', cmap_tables = [[128131]],
              letter_width = 15, letter_height = 25\<rparr>"

definition test_processor :: text_processor where
  "test_processor = \<lparr>fonts = [font_A, font_B], PIXELS_PER_LINE = 10, FONT_SIZE = 10\<rparr>"

text \<open>The same width with Font A alone.\<close>

definition font_A_processor :: text_processor where
  "font_A_processor = \<lparr>fonts = [font_A], PIXELS_PER_LINE = 10, FONT_SIZE = 10\<rparr>"

section \<open>Definitions used to state the properties\<close>

text \<open>
  The Segmenter in the specification's words, for one character: the first font of the
  set, in priority order, that has the glyph; with no such font, a newline is emitted
  tagged with the first font of the set, U+FE0F is dropped, and any other character is
  dropped.
\<close>

definition segmenter_spec :: "font list \<Rightarrow> codepoint \<Rightarrow> token list" where
  "segmenter_spec fnts c =
     (case List.find (\<lambda>f. has_symbol f c) fnts of
        Some f \<Rightarrow> [(c, f)]
      | None \<Rightarrow>
          if c = NEWLINE then [(NEWLINE, hd fnts)]
          else if c = VARIATION_SELECTOR_16 then []
          else [])"

text \<open>
  The shape of the text of a word the Word Joiner emits: no newline in it, and no space
  after its first character.
\<close>

definition word_ok :: "str \<Rightarrow> bool" where
  "word_ok s = (NEWLINE \<notin> set s \<and> SPACE \<notin> set (tl s))"

definition emitted_ok :: "word \<Rightarrow> bool" where
  "emitted_ok w = (fst w \<noteq> [] \<and> (fst w = [NEWLINE] \<or> word_ok (fst w)))"

definition joiner_inv :: "joiner \<Rightarrow> bool" where
  "joiner_inv st = (list_all emitted_ok (emitted st) \<and> word_ok (current_word st))"

text \<open>The characters the Word Joiner holds: those of the words emitted, then the buffer.\<close>

definition joiner_text :: "joiner \<Rightarrow> str" where
  "joiner_text st = concat (map fst (emitted st)) @ current_word st"

text \<open>
  The width of a line as the Line Wrapper counts it: the sum of the
  \<^verbatim>\<open>word_pix_length\<close> of its words.
\<close>

definition line_pixels :: "line \<Rightarrow> int" where
  "line_pixels l = sum_list (map word_pix_length l)"

text \<open>
  The width of a word and of a line in the specification's words:
  \<open>ceil(len(word_text) * font.letter_width) + 1\<close>, summed over the words of the line,
  with \<^verbatim>\<open>font.letter_width\<close> the float the program holds.
\<close>

definition spec_word_pixels :: "word \<Rightarrow> int" where
  "spec_word_pixels w = \<lceil>of_nat (length (fst w)) * float_width (snd w)\<rceil> + 1"

definition spec_line_pixels :: "line \<Rightarrow> int" where
  "spec_line_pixels l = sum_list (map spec_word_pixels l)"

text \<open>
  The invariant of the loop of \<^verbatim>\<open>word_table\<close>: the table is not empty; only its last
  line may be empty; no word in it contains a newline.
\<close>

definition wrap_inv :: "wrapper \<Rightarrow> bool" where
  "wrap_inv st =
     (table st \<noteq> [] \<and>
      (\<forall>l \<in> set (butlast (table st)). l \<noteq> []) \<and>
      (\<forall>l \<in> set (table st). \<forall>p \<in> set l. NEWLINE \<notin> set (fst p)))"

text \<open>
  Which words of a table are forced-split fragments is not to be read off the table: a
  fragment is a word like any other. So the Line Wrapper is run once more with one bit
  of bookkeeping the program does not have: every word it places carries a mark, which
  is \<open>True\<close> exactly for the words the forced split places (\<open>add_part_m\<close>), and \<open>False\<close>
  for the words placed whole. Apart from the mark, \<open>newline_m\<close>, \<open>add_word_m\<close>,
  \<open>add_part_m\<close>, \<open>wrap_step_m\<close> and \<open>wrap_loop_m\<close> are \<open>newline\<close>, \<open>add_word\<close>, \<open>add_part\<close>,
  \<open>wrap_step\<close> and \<open>wrap_loop\<close>, and \<open>unmark\<close> forgets the marks.
\<close>

type_synonym marked_word = "word \<times> bool"
type_synonym marked_line = "marked_word list"

record marked_wrapper =
  mtable :: "marked_line list"
  mline_pix_len :: int

definition unmark :: "marked_wrapper \<Rightarrow> wrapper" where
  "unmark m = \<lparr>table = map (map fst) (mtable m), line_pix_len = mline_pix_len m\<rparr>"

definition newline_m :: "text_processor \<Rightarrow> marked_wrapper \<Rightarrow> marked_wrapper" where
  "newline_m tp m =
     (if last (mtable m) \<noteq> []
      then m\<lparr>mtable := mtable m @ [[]], mline_pix_len := IMAGE_PIX_WIDTH tp\<rparr>
      else m)"

definition add_word_m :: "int \<Rightarrow> marked_word \<Rightarrow> marked_wrapper \<Rightarrow> marked_wrapper" where
  "add_word_m pix p m =
     m\<lparr>mline_pix_len := mline_pix_len m - pix,
       mtable := butlast (mtable m) @ [last (mtable m) @ [p]]\<rparr>"

definition add_part_m ::
  "text_processor \<Rightarrow> word \<Rightarrow> int \<Rightarrow> marked_wrapper \<Rightarrow> int \<Rightarrow> marked_wrapper" where
  "add_part_m tp w word_part_len m idx =
     add_word_m (word_pix_length w)
       ((py_slice (fst w) (idx * word_part_len) ((idx + 1) * word_part_len), snd w), True)
       (newline_m tp m)"

definition wrap_step_m :: "text_processor \<Rightarrow> marked_wrapper \<Rightarrow> word \<Rightarrow> error + marked_wrapper" where
  "wrap_step_m tp m w =
     (if fst w = [NEWLINE] then Inr (newline_m tp m)
      else if word_pix_length w \<le> mline_pix_len m
        then Inr (add_word_m (word_pix_length w) (w, False) m)
      else if word_pix_length w \<le> IMAGE_PIX_WIDTH tp
        then Inr (add_word_m (word_pix_length w) (w, False) (newline_m tp m))
      else if IMAGE_PIX_WIDTH tp = 0 then Inl ZeroDivisionError
      else if letter_height (snd w) = 0 then Inl ZeroDivisionError
      else
        (let lines_count = (word_pix_length w - 1) div IMAGE_PIX_WIDTH tp + 1;
             word_part_len = IMAGE_PIX_WIDTH tp div letter_height (snd w)
         in Inr (foldl (add_part_m tp w word_part_len) m (map int [0..<nat lines_count]))))"

fun wrap_loop_m :: "text_processor \<Rightarrow> marked_wrapper \<Rightarrow> word list \<Rightarrow> error + marked_wrapper" where
  "wrap_loop_m tp m [] = Inr m"
| "wrap_loop_m tp m (w # ws) =
     (case wrap_step_m tp m w of
        Inl e \<Rightarrow> Inl e
      | Inr m' \<Rightarrow> wrap_loop_m tp m' ws)"

definition marked_init :: "text_processor \<Rightarrow> marked_wrapper" where
  "marked_init tp = \<lparr>mtable = [[]], mline_pix_len = IMAGE_PIX_WIDTH tp\<rparr>"

definition marked_table :: "text_processor \<Rightarrow> str \<Rightarrow> error + marked_line list" where
  "marked_table tp text =
     (case text_words tp text of
        Inl e \<Rightarrow> Inl e
      | Inr ws \<Rightarrow>
          (case wrap_loop_m tp (marked_init tp) ws of
             Inl e \<Rightarrow> Inl e
           | Inr m \<Rightarrow> Inr (mtable m)))"

text \<open>
  The invariant of the marked loop: every line either has a marked word or fits the
  canvas, and the budget is what the last line leaves of the canvas width, unless that
  line has a marked word.
\<close>

definition has_mark :: "marked_line \<Rightarrow> bool" where
  "has_mark l = (\<exists>p \<in> set l. snd p)"

definition marked_inv :: "text_processor \<Rightarrow> marked_wrapper \<Rightarrow> bool" where
  "marked_inv tp m =
     (mtable m \<noteq> [] \<and>
      (\<forall>l \<in> set (mtable m). has_mark l \<or> line_pixels (map fst l) \<le> IMAGE_PIX_WIDTH tp) \<and>
      (has_mark (last (mtable m)) \<or>
       (line_pixels (map fst (last (mtable m))) = IMAGE_PIX_WIDTH tp - mline_pix_len m
        \<and> 0 \<le> mline_pix_len m)))"

text \<open>
  The processor with the source's constants, \<^verbatim>\<open>PIXELS_PER_LINE = 20\<close> and
  \<^verbatim>\<open>FONT_SIZE = 136\<close>, and a font whose \<^verbatim>\<open>letter_width\<close> is 129.5 (a value a binary
  float holds exactly, as it holds 21 * 129.5).
\<close>

definition source_processor :: "font list \<Rightarrow> text_processor" where
  "source_processor fnts = \<lparr>fonts = fnts, PIXELS_PER_LINE = 20, FONT_SIZE = 136\<rparr>"

definition font_W :: font where
  "font_W = \<lparr>path = ''W'', cmap_tables = [[97]], letter_width = 259 / 2,
              letter_height = 136\<rparr>"

text \<open>
  Two more fonts of the letter \<^verbatim>\<open>a\<close>: one 126.5 pixels wide, and one whose example text
  of 15 letters is 995 pixels wide, so that its \<^verbatim>\<open>letter_width\<close> is \<^verbatim>\<open>995 / 15\<close>, which
  no float holds exactly.
\<close>

definition font_V :: font where
  "font_V = \<lparr>path = ''V'', cmap_tables = [[97]], letter_width = 253 / 2,
              letter_height = 136\<rparr>"

definition font_T :: font where
  "font_T = \<lparr>path = ''T'', cmap_tables = [[97]], letter_width = 995 / 15,
              letter_height = 136\<rparr>"

section \<open>Properties of the float arithmetic\<close>

lemma round_half_even_of_int [simp]: "round_half_even (of_int z) = z"
  by (simp add: round_half_even_def)

lemma round_half_even_nonneg: "0 \<le> x \<Longrightarrow> 0 \<le> round_half_even x"
  by (auto simp: round_half_even_def Let_def)

lemma fl_nonneg: "0 \<le> x \<Longrightarrow> 0 \<le> fl x"
proof -
  assume x: "0 \<le> x"
  have p: "\<And>e. (0 :: rat) < 2 powi e" by simp
  show ?thesis
    unfolding fl_def Let_def
    using x p by (auto intro!: mult_nonneg_nonneg round_half_even_nonneg divide_nonneg_pos
                   simp: less_imp_le)
qed

lemma ilog2_lower:
  assumes "0 < a"
  shows "2 powi (ilog2 a) \<le> a"
proof (cases "1 \<le> a")
  case True
  let ?n = "nat \<lfloor>a\<rfloor>"
  have n: "0 < ?n" using True by simp
  have b: "2 ^ (floorlog 2 ?n - 1) \<le> ?n" using floorlog_bounds [OF n, of 2] by simp
  have "floorlog 2 ?n \<noteq> 0" unfolding floorlog_eq_zero_iff using n by simp
  then have f: "0 < floorlog 2 ?n" by simp
  have "ilog2 a = int (floorlog 2 ?n - 1)" using True f by (simp add: ilog2_def of_nat_diff)
  then have "(2 :: rat) powi (ilog2 a) = 2 ^ (floorlog 2 ?n - 1)" by simp
  also have "\<dots> = of_nat (2 ^ (floorlog 2 ?n - 1))" by simp
  also have "\<dots> \<le> of_nat ?n" using b by (simp only: of_nat_le_iff)
  also have "\<dots> = of_int \<lfloor>a\<rfloor>" using True by simp
  also have "\<dots> \<le> a" by simp
  finally show ?thesis .
next
  case False
  define z where "z = \<lceil>1 / a\<rceil>"
  define c where "c = nat (z - 1)"
  have "1 < 1 / a" using assms False by simp
  then have k: "1 < z" unfolding z_def by (simp add: less_ceiling_iff)
  then have c: "0 < c" unfolding c_def by simp
  have i: "int (Suc c) = z" unfolding c_def using k by simp
  have u: "c < 2 ^ floorlog 2 c" using floorlog_bounds [OF c, of 2] by simp
  have "1 / a \<le> of_int z" unfolding z_def by simp
  also have "of_int z = (of_nat (Suc c) :: rat)"
    unfolding i [symmetric] by (simp only: of_int_of_nat_eq)
  also have "\<dots> \<le> of_nat (2 ^ floorlog 2 c)" using u by (simp only: of_nat_le_iff Suc_le_eq)
  also have "\<dots> = 2 ^ floorlog 2 c" by simp
  finally have "1 / a \<le> 2 ^ floorlog 2 c" .
  then have "1 / 2 ^ floorlog 2 c \<le> a"
    using assms by (simp add: field_simps)
  moreover have "(2 :: rat) powi (ilog2 a) = 1 / 2 ^ floorlog 2 c"
    using False unfolding c_def z_def by (simp add: ilog2_def power_int_minus field_simps)
  ultimately show ?thesis by simp
qed

lemma ilog2_upper:
  assumes "0 < a"
  shows "a < 2 powi (ilog2 a + 1)"
proof (cases "1 \<le> a")
  case True
  let ?n = "nat \<lfloor>a\<rfloor>"
  have n: "0 < ?n" using True by simp
  have b: "?n < 2 ^ floorlog 2 ?n" using floorlog_bounds [OF n, of 2] by simp
  have "floorlog 2 ?n \<noteq> 0" unfolding floorlog_eq_zero_iff using n by simp
  then have f: "0 < floorlog 2 ?n" by simp
  have i: "ilog2 a + 1 = int (floorlog 2 ?n)" using True by (simp add: ilog2_def)
  have "a < of_int (\<lfloor>a\<rfloor> + 1)" by linarith
  also have "\<lfloor>a\<rfloor> + 1 = int (Suc ?n)" using True by simp
  also have "(of_int (int (Suc ?n)) :: rat) = of_nat (Suc ?n)" by (simp only: of_int_of_nat_eq)
  also have "\<dots> \<le> of_nat (2 ^ floorlog 2 ?n)" using b by (simp only: of_nat_le_iff Suc_le_eq)
  also have "\<dots> = 2 powi (ilog2 a + 1)" unfolding i by simp
  finally show ?thesis .
next
  case False
  define z where "z = \<lceil>1 / a\<rceil>"
  define c where "c = nat (z - 1)"
  have "1 < 1 / a" using assms False by simp
  then have k: "1 < z" unfolding z_def by (simp add: less_ceiling_iff)
  then have c: "0 < c" unfolding c_def by simp
  have i: "int c = z - 1" unfolding c_def using k by simp
  have u: "2 ^ (floorlog 2 c - 1) \<le> c" using floorlog_bounds [OF c, of 2] by simp
  have "floorlog 2 c \<noteq> 0" unfolding floorlog_eq_zero_iff using c by simp
  then have f: "0 < floorlog 2 c" by simp
  have "(2 :: rat) ^ (floorlog 2 c - 1) = of_nat (2 ^ (floorlog 2 c - 1))" by simp
  also have "\<dots> \<le> of_nat c" using u by (simp only: of_nat_le_iff)
  also have "(of_nat c :: rat) = of_int (z - 1)" unfolding i [symmetric] by (simp only: of_int_of_nat_eq)
  also have "\<dots> < 1 / a" unfolding z_def by linarith
  finally have "(2 :: rat) ^ (floorlog 2 c - 1) < 1 / a" .
  then have "a < 1 / 2 ^ (floorlog 2 c - 1)"
    using assms by (simp add: field_simps)
  moreover have "ilog2 a + 1 = - int (floorlog 2 c - 1)"
    using False f unfolding c_def z_def by (simp add: ilog2_def of_nat_diff)
  then have "(2 :: rat) powi (ilog2 a + 1) = 1 / 2 ^ (floorlog 2 c - 1)"
    by (simp add: power_int_minus field_simps)
  ultimately show ?thesis by simp
qed

lemma powi_less:
  assumes "(2 :: rat) powi i < 2 powi j"
  shows "i < j"
proof (rule ccontr)
  assume "\<not> i < j"
  then have "j \<le> i" by simp
  then have "(2 :: rat) powi j \<le> 2 powi i" by (intro power_int_increasing) simp_all
  with assms show False by simp
qed

lemma ilog2_unique:
  assumes "2 powi L \<le> a" "a < 2 powi (L + 1)"
  shows "ilog2 a = L"
proof -
  have "(0 :: rat) < 2 powi L" by simp
  with assms(1) have a: "0 < a" by linarith
  have l: "2 powi (ilog2 a) \<le> a" using a by (rule ilog2_lower)
  have u: "a < 2 powi (ilog2 a + 1)" using a by (rule ilog2_upper)
  have "(2 :: rat) powi L < 2 powi (ilog2 a + 1)" using assms(1) u by linarith
  then have 1: "L < ilog2 a + 1" by (rule powi_less)
  have "(2 :: rat) powi (ilog2 a) < 2 powi (L + 1)" using assms(2) l by linarith
  then have 2: "ilog2 a < L + 1" by (rule powi_less)
  from 1 2 show ?thesis by linarith
qed

lemma fl_exact:
  assumes "\<bar>m\<bar> < 2 ^ 53"
  shows "fl (of_int m * 2 powi k) = of_int m * 2 powi k"
proof (cases "m = 0")
  case True
  then show ?thesis by (simp add: fl_def)
next
  case False
  define x :: rat where "x = of_int m * 2 powi k"
  define e where "e = ilog2 \<bar>x\<bar> - 52"
  have p: "\<And>j. (0 :: rat) < 2 powi j" by simp
  have x0: "x \<noteq> 0" unfolding x_def using False by simp
  have ax: "\<bar>x\<bar> = of_int \<bar>m\<bar> * 2 powi k" unfolding x_def by (simp add: abs_mult)
  have "(of_int \<bar>m\<bar> :: rat) < of_int (2 ^ 53)" using assms by (simp only: of_int_less_iff)
  then have "of_int \<bar>m\<bar> * 2 powi k < (2 ^ 53 :: rat) * 2 powi k"
    using p [of k] by simp
  also have "(2 ^ 53 :: rat) * 2 powi k = 2 powi (53 + k)"
    by (simp add: power_int_add)
  finally have up: "\<bar>x\<bar> < 2 powi (53 + k)" unfolding ax .
  have "2 powi (ilog2 \<bar>x\<bar>) \<le> \<bar>x\<bar>" using x0 by (intro ilog2_lower) simp
  with up have lt: "(2 :: rat) powi (ilog2 \<bar>x\<bar>) < 2 powi (53 + k)" by linarith
  have "ilog2 \<bar>x\<bar> < 53 + k"
  proof (rule ccontr)
    assume "\<not> ilog2 \<bar>x\<bar> < 53 + k"
    then have "53 + k \<le> ilog2 \<bar>x\<bar>" by simp
    then have "(2 :: rat) powi (53 + k) \<le> 2 powi (ilog2 \<bar>x\<bar>)"
      by (intro power_int_increasing) simp_all
    with lt show False by simp
  qed
  then have ek: "e \<le> k" unfolding e_def by simp
  define d where "d = nat (k - e)"
  have kd: "k = e + int d" unfolding d_def using ek by simp
  have "(2 :: rat) powi k = 2 powi e * 2 ^ d" unfolding kd by (simp add: power_int_add)
  then have xe: "x = of_int (m * 2 ^ d) * 2 powi e" unfolding x_def by simp
  then have "x / 2 powi e = of_int (m * 2 ^ d)" using p [of e] by simp
  then have "round_half_even (x / 2 powi e) = m * 2 ^ d"
    by (simp only: round_half_even_of_int)
  then have "fl x = of_int (m * 2 ^ d) * 2 powi e"
    using x0 unfolding fl_def Let_def e_def [symmetric] by simp
  then show ?thesis unfolding xe [symmetric] unfolding x_def .
qed

lemma fl_of_int: "\<bar>m\<bar> < 2 ^ 53 \<Longrightarrow> fl (of_int m) = of_int m"
  using fl_exact [of m 0] by simp

lemma fl_half: "\<bar>m\<bar> < 2 ^ 53 \<Longrightarrow> fl (of_int m / 2) = of_int m / 2"
  using fl_exact [of m "- 1"] by (simp add: power_int_minus)

text \<open>
  \<open>ilog2\<close> is the binary exponent (\<open>ilog2_unique\<close>), so a rounding can be computed
  from the exponent and the nearest integer of the scaled number.
\<close>

lemma round_half_even_near:
  assumes "\<bar>x - of_int r\<bar> < 1 / 2"
  shows "round_half_even x = r"
proof -
  have "\<lfloor>x\<rfloor> = r \<and> x - of_int r < 1 / 2 \<or> \<lfloor>x\<rfloor> = r - 1 \<and> 1 / 2 < x - of_int (r - 1)"
    using assms by (cases "of_int r \<le> x") (auto simp: floor_eq_iff abs_if split: if_splits)
  then show ?thesis
    by (auto simp: round_half_even_def Let_def)
qed

lemma fl_eval:
  assumes "2 powi L \<le> \<bar>x\<bar>" "\<bar>x\<bar> < 2 powi (L + 1)"
    and "\<bar>x / 2 powi (L - 52) - of_int r\<bar> < 1 / 2"
  shows "fl x = of_int r * 2 powi (L - 52)"
proof -
  have "(0 :: rat) < 2 powi L" by simp
  with assms(1) have "0 < \<bar>x\<bar>" by linarith
  then have x: "x \<noteq> 0" by simp
  have i: "ilog2 \<bar>x\<bar> = L" using assms(1,2) by (rule ilog2_unique)
  have r: "round_half_even (x / 2 powi (L - 52)) = r" using assms(3) by (rule round_half_even_near)
  show ?thesis using x by (simp add: fl_def i r)
qed

text \<open>
  A number \<open>m * 2^k\<close> with \<open>|m| < 2^53\<close> is a float, and rounding leaves it as it is
  (\<open>fl_exact\<close>); so the pixel length of a word is computed exactly when the letter width
  is a small integer or half of one.
\<close>

lemma py_int_of_int [simp]: "py_int (of_int z) = z"
  by (simp add: py_int_def)

lemma word_pix_length_int_width:
  assumes "letter_width (snd w) = of_int a" "0 \<le> a" "a < 2 ^ 53"
    and "int (length (fst w)) * a + 1 < 2 ^ 53"
    and "int (length (fst w)) < 2 ^ 53"
  shows "word_pix_length w = int (length (fst w)) * a + 1"
proof -
  let ?n = "int (length (fst w))"
  have na: "0 \<le> ?n * a" using assms(2) by simp
  have "fl (of_int ?n) = of_int ?n" using assms(5) by (intro fl_of_int) simp
  then have n: "fl (of_nat (length (fst w))) = of_nat (length (fst w))" by simp
  have w: "float_width (snd w) = of_int a"
    unfolding float_width_def assms(1) using assms(2,3) by (intro fl_of_int) simp
  have e1: "of_nat (length (fst w)) * float_width (snd w) = (of_int (?n * a) :: rat)"
    unfolding w by simp
  have e2: "fl (of_int (?n * a)) = of_int (?n * a)"
    using na assms(4) by (intro fl_of_int) simp
  have p: "fl (fl (of_nat (length (fst w))) * float_width (snd w)) = of_int (?n * a)"
    unfolding n e1 by (rule e2)
  have e3: "(of_int (?n * a) + 1 :: rat) = of_int (?n * a + 1)" by simp
  have e4: "fl (of_int (?n * a + 1)) = of_int (?n * a + 1)"
    using na assms(4) by (intro fl_of_int) simp
  show ?thesis unfolding word_pix_length_def p e3 e4 by (rule py_int_of_int)
qed

lemma word_pix_length_half_width:
  assumes "letter_width (snd w) = of_int a / 2" "0 \<le> a" "a < 2 ^ 53"
    and "int (length (fst w)) * a + 2 < 2 ^ 53"
    and "int (length (fst w)) < 2 ^ 53"
  shows "word_pix_length w = (int (length (fst w)) * a) div 2 + 1"
proof -
  let ?n = "int (length (fst w))"
  have na: "0 \<le> ?n * a" using assms(2) by simp
  have "fl (of_int ?n) = of_int ?n" using assms(5) by (intro fl_of_int) simp
  then have n: "fl (of_nat (length (fst w))) = of_nat (length (fst w))" by simp
  have w: "float_width (snd w) = of_int a / 2"
    unfolding float_width_def assms(1) using assms(2,3) by (intro fl_half) simp
  have e1: "of_nat (length (fst w)) * float_width (snd w) = (of_int (?n * a) / 2 :: rat)"
    unfolding w by simp
  have e2: "fl (of_int (?n * a) / 2) = of_int (?n * a) / 2"
    using na assms(4) by (intro fl_half) simp
  have p: "fl (fl (of_nat (length (fst w))) * float_width (snd w)) = of_int (?n * a) / 2"
    unfolding n e1 by (rule e2)
  have e3: "(of_int (?n * a) / 2 + 1 :: rat) = of_int (?n * a + 2) / 2" by simp
  have e4: "fl (of_int (?n * a + 2) / 2) = of_int (?n * a + 2) / 2"
    using na assms(4) by (intro fl_half) simp
  have "(0 :: rat) \<le> of_int (?n * a + 2)" using na by (simp only: of_int_0_le_iff)
  then have nn: "(0 :: rat) \<le> of_int (?n * a + 2) / 2" by (rule divide_nonneg_nonneg) simp
  have f: "\<lfloor>(of_int (?n * a + 2) :: rat) / 2\<rfloor> = (?n * a + 2) div 2"
    using floor_divide_of_int_eq [of "?n * a + 2" 2, where ?'a = rat] by simp
  have t: "py_int (of_int (?n * a + 2) / 2) = \<lfloor>(of_int (?n * a + 2) :: rat) / 2\<rfloor>"
    using nn by (simp only: py_int_def if_True)
  show ?thesis unfolding word_pix_length_def p e3 e4 t f by simp
qed

lemma word_pix_length_nonneg:
  assumes "0 \<le> letter_width (snd w)"
  shows "0 \<le> word_pix_length w"
proof -
  let ?y = "fl (fl (of_nat (length (fst w))) * float_width (snd w))"
  have "(0 :: rat) \<le> of_nat (length (fst w))" by simp
  then have "0 \<le> fl (of_nat (length (fst w)))" by (rule fl_nonneg)
  moreover
  have "0 \<le> float_width (snd w)" unfolding float_width_def using assms by (rule fl_nonneg)
  ultimately have "0 \<le> fl (of_nat (length (fst w))) * float_width (snd w)" by simp
  then have "0 \<le> ?y" by (rule fl_nonneg)
  then have "0 \<le> ?y + 1" by linarith
  then have p: "0 \<le> fl (?y + 1)" by (rule fl_nonneg)
  then have "0 \<le> \<lfloor>fl (?y + 1)\<rfloor>" by (simp only: zero_le_floor)
  moreover have "py_int (fl (?y + 1)) = \<lfloor>fl (?y + 1)\<rfloor>"
    using p by (simp only: py_int_def if_True)
  ultimately show ?thesis by (simp only: word_pix_length_def)
qed

section \<open>Properties of \<^verbatim>\<open>letters\<close>\<close>

lemma find_font_find: "find_font fnts c = List.find (\<lambda>f. has_symbol f c) fnts"
  by (induction fnts) simp_all

lemma letters_step_spec:
  "fnts \<noteq> [] \<Longrightarrow> letters_step fnts acc c = Inr (acc @ segmenter_spec fnts c)"
  by (cases fnts) (simp_all add: letters_step_def segmenter_spec_def find_font_find split: option.splits)

lemma letters_loop_spec:
  "fnts \<noteq> [] \<Longrightarrow> letters_loop fnts acc cs = Inr (acc @ concat (map (segmenter_spec fnts) cs))"
  by (induction cs arbitrary: acc) (simp_all add: letters_step_spec)

text \<open>
  C3. On a non-empty font set, \<^verbatim>\<open>letters\<close> raises nothing and returns, for the
  characters of the stripped text in order, what the specification's Segmenter says:
  the token of the first font that has the symbol; for a character no font has, a
  newline token tagged with the first font, and no token for U+FE0F or any other
  character.
\<close>

theorem letters_refines_segmenter:
  assumes "fonts tp \<noteq> []"
  shows "letters tp text =
           Inr (concat (map (segmenter_spec (fonts tp)) (strip [SPACE, NEWLINE] text)))"
  using assms by (simp add: letters_def letters_loop_spec)

theorem letters_refines_segmenter_witness:
  "fonts test_processor \<noteq> []
   \<and> letters test_processor [SPACE, 97, VARIATION_SELECTOR_16, 8364, NEWLINE, 128131, NEWLINE]
       = Inr [(97, font_A), (NEWLINE, font_A), (128131, font_B)]
   \<and> letters \<lparr>fonts = [font_B], PIXELS_PER_LINE = 10, FONT_SIZE = 10\<rparr> [128131, NEWLINE, 97, 128131]
       = Inr [(128131, font_B), (NEWLINE, font_B), (128131, font_B)]"
proof -
  have a: "fonts test_processor \<noteq> []"
    by (simp add: test_processor_def)
  have b: "fonts \<lparr>fonts = [font_B], PIXELS_PER_LINE = 10, FONT_SIZE = 10\<rparr> \<noteq> []"
    by simp
  have h: "has_symbol font_A 97" "has_symbol font_A NEWLINE" "\<not> has_symbol font_A 128131"
    "\<not> has_symbol font_A VARIATION_SELECTOR_16" "\<not> has_symbol font_A 8364"
    "has_symbol font_B 128131" "\<not> has_symbol font_B NEWLINE" "\<not> has_symbol font_B 97"
    "\<not> has_symbol font_B VARIATION_SELECTOR_16" "\<not> has_symbol font_B 8364"
    by (simp_all add: has_symbol_def font_A_def font_B_def NEWLINE_def VARIATION_SELECTOR_16_def)
  have n: "SPACE \<noteq> 97" "97 \<noteq> SPACE" "97 \<noteq> NEWLINE" "128131 \<noteq> SPACE" "128131 \<noteq> NEWLINE"
    "VARIATION_SELECTOR_16 \<noteq> NEWLINE" "8364 \<noteq> NEWLINE"
    by (simp_all add: SPACE_def NEWLINE_def VARIATION_SELECTOR_16_def)
  show ?thesis
    using letters_refines_segmenter [OF a, of "[SPACE, 97, VARIATION_SELECTOR_16, 8364, NEWLINE, 128131, NEWLINE]"]
      letters_refines_segmenter [OF b, of "[128131, NEWLINE, 97, 128131]"]
    by (simp add: a strip_def segmenter_spec_def test_processor_def h n)
qed

lemma letters_loop_error: "letters_loop fnts acc cs = Inl e \<Longrightarrow> e = IndexError"
proof (induction cs arbitrary: acc)
  case Nil
  then show ?case by simp
next
  case (Cons c cs)
  show ?case
  proof (cases "letters_step fnts acc c")
    case (Inl e')
    with Cons.prems have "e = e'" by simp
    moreover from Inl have "e' = IndexError"
      by (auto simp: letters_step_def split: option.splits if_splits list.splits)
    ultimately show ?thesis by simp
  next
    case (Inr acc')
    with Cons show ?thesis by simp
  qed
qed



section \<open>Properties of \<^verbatim>\<open>words\<close>\<close>

lemma words_error: "words ltrs = Inl e \<Longrightarrow> e = IndexError"
  by (cases ltrs) (auto simp: words_def Let_def)

lemma new_word_inv: "joiner_inv st \<Longrightarrow> joiner_inv (new_word f st)"
  by (simp add: joiner_inv_def new_word_def emitted_ok_def word_ok_def)

lemma new_word_current [simp]: "current_word (new_word f st) = []"
  by (simp add: new_word_def)

lemma word_ok_snoc:
  "word_ok s \<Longrightarrow> c \<noteq> NEWLINE \<Longrightarrow> (c = SPACE \<Longrightarrow> s = []) \<Longrightarrow> word_ok (s @ [c])"
  by (cases s) (auto simp: word_ok_def)

lemma append_letter_inv:
  assumes "joiner_inv st" "fst tok \<noteq> NEWLINE" "fst tok = SPACE \<Longrightarrow> current_word st = []"
  shows "joiner_inv (append_letter st tok)"
proof (cases tok)
  case (Pair letter font)
  show ?thesis
  proof (cases "current_font st = font")
    case True
    with assms Pair show ?thesis
      by (simp add: append_letter_def joiner_inv_def word_ok_snoc)
  next
    case False
    have "joiner_inv (new_word font st)" using assms(1) by (rule new_word_inv)
    then have "list_all emitted_ok (emitted (new_word font st))"
      by (simp add: joiner_inv_def)
    moreover have "word_ok [letter]" using assms(2) Pair by (simp add: word_ok_def)
    ultimately show ?thesis using False Pair
      by (simp add: append_letter_def joiner_inv_def Let_def)
  qed
qed

lemma words_step_inv:
  assumes "joiner_inv st"
  shows "joiner_inv (words_step st tok)"
proof (cases tok)
  case (Pair letter font)
  let ?st1 = "new_word (current_font st) st"
  have i1: "joiner_inv ?st1" using assms by (rule new_word_inv)
  consider (nl) "letter = NEWLINE" | (sp) "letter = SPACE" "letter \<noteq> NEWLINE"
    | (other) "letter \<noteq> SPACE" "letter \<noteq> NEWLINE" by blast
  then show ?thesis
  proof cases
    case nl
    have "list_all emitted_ok (emitted ?st1)" using i1 by (simp add: joiner_inv_def)
    then show ?thesis using nl Pair
      by (simp add: words_step_def Let_def new_word_def joiner_inv_def emitted_ok_def word_ok_def)
  next
    case sp
    have "joiner_inv (append_letter ?st1 tok)"
      using i1 sp Pair by (intro append_letter_inv) simp_all
    then show ?thesis using sp Pair by (simp add: words_step_def Let_def)
  next
    case other
    have "joiner_inv (append_letter st tok)"
      using assms other Pair by (intro append_letter_inv) simp_all
    then show ?thesis using other Pair by (simp add: words_step_def)
  qed
qed

lemma foldl_words_step_inv: "joiner_inv st \<Longrightarrow> joiner_inv (foldl words_step st ltrs)"
  by (induction ltrs arbitrary: st) (simp_all add: words_step_inv)

lemma words_emitted_ok:
  assumes "words ltrs = Inr ws"
  shows "list_all emitted_ok ws"
proof (cases ltrs)
  case Nil
  with assms show ?thesis by (simp add: words_def)
next
  case (Cons tok rest)
  obtain c font0 where tok: "tok = (c, font0)" by (cases tok)
  let ?init = "\<lparr>emitted = [], current_font = font0, current_word = []\<rparr>"
  let ?st = "foldl words_step ?init ltrs"
  have "joiner_inv ?init" by (simp add: joiner_inv_def word_ok_def)
  then have "joiner_inv ?st" by (rule foldl_words_step_inv)
  then have "joiner_inv (new_word (current_font ?st) ?st)" by (rule new_word_inv)
  moreover have "ws = emitted (new_word (current_font ?st) ?st)"
    using assms Cons tok by (simp add: words_def Let_def)
  ultimately show ?thesis by (simp add: joiner_inv_def)
qed

lemma new_word_text: "joiner_text (new_word f st) = joiner_text st"
  by (simp add: joiner_text_def new_word_def)

lemma append_letter_text: "joiner_text (append_letter st tok) = joiner_text st @ [fst tok]"
proof (cases tok)
  case (Pair letter font)
  show ?thesis
  proof (cases "current_font st = font")
    case True
    with Pair show ?thesis by (simp add: append_letter_def joiner_text_def)
  next
    case False
    have "joiner_text (new_word font st) = joiner_text st" by (rule new_word_text)
    then show ?thesis using False Pair
      by (simp add: append_letter_def joiner_text_def Let_def)
  qed
qed

lemma words_step_text: "joiner_text (words_step st tok) = joiner_text st @ [fst tok]"
proof (cases tok)
  case (Pair letter font)
  let ?st1 = "new_word (current_font st) st"
  have t1: "joiner_text ?st1 = joiner_text st" by (rule new_word_text)
  consider (nl) "letter = NEWLINE" | (sp) "letter = SPACE" "letter \<noteq> NEWLINE"
    | (other) "letter \<noteq> SPACE" "letter \<noteq> NEWLINE" by blast
  then show ?thesis
  proof cases
    case nl
    have "joiner_text (new_word font (?st1\<lparr>current_word := current_word ?st1 @ [letter]\<rparr>))
            = joiner_text (?st1\<lparr>current_word := current_word ?st1 @ [letter]\<rparr>)"
      by (rule new_word_text)
    also have "\<dots> = joiner_text ?st1 @ [letter]" by (simp add: joiner_text_def)
    finally show ?thesis using nl Pair t1 by (simp add: words_step_def Let_def)
  next
    case sp
    have "joiner_text (append_letter ?st1 tok) = joiner_text ?st1 @ [fst tok]"
      by (rule append_letter_text)
    then show ?thesis using sp Pair t1 by (simp add: words_step_def Let_def)
  next
    case other
    then show ?thesis using Pair by (simp add: words_step_def append_letter_text)
  qed
qed

lemma foldl_words_step_text:
  "joiner_text (foldl words_step st ltrs) = joiner_text st @ map fst ltrs"
  by (induction ltrs arbitrary: st) (simp_all add: words_step_text)

lemma words_text:
  assumes "words ltrs = Inr ws"
  shows "concat (map fst ws) = map fst ltrs"
proof (cases ltrs)
  case Nil
  with assms show ?thesis by (simp add: words_def)
next
  case (Cons tok rest)
  obtain c font0 where tok: "tok = (c, font0)" by (cases tok)
  let ?init = "\<lparr>emitted = [], current_font = font0, current_word = []\<rparr>"
  let ?st = "foldl words_step ?init ltrs"
  let ?fin = "new_word (current_font ?st) ?st"
  have ws: "ws = emitted ?fin" using assms Cons tok by (simp add: words_def Let_def)
  have "joiner_text ?fin = joiner_text ?st" by (rule new_word_text)
  also have "\<dots> = joiner_text ?init @ map fst ltrs" by (rule foldl_words_step_text)
  also have "\<dots> = map fst ltrs" by (simp add: joiner_text_def)
  finally have "joiner_text ?fin = map fst ltrs" .
  then show ?thesis unfolding ws by (simp add: joiner_text_def)
qed

text \<open>
  C4, as the code has it. No character is dropped: the texts of the words emitted, one
  after the other, are the characters of the tokens. No emitted word is empty; a newline
  is in no word but the lone newline; and a space is in no word but at its first place.
  So a space or newline token closes the current buffer, a newline is a word of its own,
  and a space token (only the newline branch of the loop ends in \<^verbatim>\<open>continue\<close>) is
  appended to the fresh buffer and leads the next word.
\<close>

theorem words_split_text:
  assumes "words ltrs = Inr ws"
  shows "concat (map fst ws) = map fst ltrs \<and>
         (\<forall>w \<in> set ws. fst w \<noteq> [] \<and>
            (fst w \<noteq> [NEWLINE] \<longrightarrow>
               NEWLINE \<notin> set (fst w) \<and> SPACE \<notin> set (tl (fst w))))"
  using words_emitted_ok [OF assms] words_text [OF assms]
  by (auto simp: list_all_iff emitted_ok_def word_ok_def)

text \<open>
  The claim as it is written fails on the tokens of \<^verbatim>\<open>a b\<close>: the second word emitted
  is \<^verbatim>\<open>" b"\<close>, which is not the lone newline and contains the space.
\<close>

theorem words_keep_space_counterexample:
  "words [(97, font_A), (SPACE, font_A), (98, font_A)] = Inr [([97], font_A), ([SPACE, 98], font_A)]
   \<and> [SPACE, 98] \<noteq> [NEWLINE] \<and> SPACE \<in> set [SPACE, 98]"
  by (simp add: words_def words_step_def append_letter_def new_word_def SPACE_def NEWLINE_def Let_def)

theorem words_split_text_witness:
  "words [(97, font_A), (SPACE, font_A), (98, font_A), (NEWLINE, font_A), (99, font_A)]
     = Inr [([97], font_A), ([SPACE, 98], font_A), ([NEWLINE], font_A), ([99], font_A)]
   \<and> concat (map fst [([97], font_A), ([SPACE, 98], font_A), ([NEWLINE], font_A), ([99], font_A)])
       = map fst [(97, font_A), (SPACE, font_A), (98, font_A), (NEWLINE, font_A), (99, font_A)]
   \<and> NEWLINE \<notin> set [SPACE, 98] \<and> SPACE \<notin> set (tl [SPACE, 98])"
proof -
  have e: "words [(97, font_A), (SPACE, font_A), (98, font_A), (NEWLINE, font_A), (99, font_A)]
     = Inr [([97], font_A), ([SPACE, 98], font_A), ([NEWLINE], font_A), ([99], font_A)]"
    by (simp add: words_def words_step_def append_letter_def new_word_def SPACE_def NEWLINE_def Let_def)
  from words_split_text [OF e] show ?thesis
    using e by (simp add: SPACE_def NEWLINE_def)
qed

lemma words_step_nonempty:
  "emitted (words_step st tok) \<noteq> [] \<or> current_word (words_step st tok) \<noteq> []"
  by (cases tok) (simp add: words_step_def append_letter_def new_word_def Let_def)

lemma words_nonempty:
  assumes "words ltrs = Inr ws"
  shows "ws \<noteq> []"
proof (cases ltrs rule: rev_cases)
  case Nil
  with assms show ?thesis by (simp add: words_def)
next
  case (snoc rest tok)
  obtain c font0 tl' where l: "ltrs = (c, font0) # tl'"
  proof (cases ltrs)
    case Nil
    with snoc show ?thesis by simp
  next
    case (Cons a list)
    then show ?thesis using that by (cases a) simp
  qed
  let ?init = "\<lparr>emitted = [], current_font = font0, current_word = []\<rparr>"
  let ?st = "foldl words_step ?init ltrs"
  have "?st = words_step (foldl words_step ?init rest) tok" using snoc by simp
  then have "emitted ?st \<noteq> [] \<or> current_word ?st \<noteq> []"
    using words_step_nonempty by simp
  then have "emitted (new_word (current_font ?st) ?st) \<noteq> []"
    by (auto simp: new_word_def)
  moreover have "ws = emitted (new_word (current_font ?st) ?st)"
    using assms l by (simp add: words_def Let_def)
  ultimately show ?thesis by simp
qed


section \<open>Properties of \<^verbatim>\<open>word_table\<close>\<close>

lemma text_words_error: "text_words tp text = Inl e \<Longrightarrow> e = IndexError"
  by (auto simp: text_words_def letters_def split: sum.splits dest: letters_loop_error words_error)

lemma wrap_step_error: "wrap_step tp st w = Inl e \<Longrightarrow> e = ZeroDivisionError"
  by (auto simp: wrap_step_def Let_def split: if_splits)

lemma wrap_loop_error: "wrap_loop tp st ws = Inl e \<Longrightarrow> e = ZeroDivisionError"
proof (induction ws arbitrary: st)
  case Nil
  then show ?case by simp
next
  case (Cons w ws)
  then show ?case
    by (cases "wrap_step tp st w") (auto dest: wrap_step_error)
qed

lemma word_table_error:
  "word_table tp text = Inl e \<Longrightarrow> e = IndexError \<or> e = ZeroDivisionError"
  by (auto simp: word_table_def split: sum.splits dest: text_words_error wrap_loop_error)

lemma newline_table_nonempty: "table st \<noteq> [] \<Longrightarrow> table (newline tp st) \<noteq> []"
  by (simp add: newline_def)

lemma add_word_table_nonempty: "table (add_word n p st) \<noteq> []"
  by (simp add: add_word_def)

lemma foldl_add_part_table_nonempty:
  "table st \<noteq> [] \<Longrightarrow> table (foldl (add_part tp w k) st idxs) \<noteq> []"
  by (induction idxs arbitrary: st) (simp_all add: add_part_def add_word_table_nonempty)

lemma wrap_step_table_nonempty:
  "wrap_step tp st w = Inr st' \<Longrightarrow> table st \<noteq> [] \<Longrightarrow> table st' \<noteq> []"
  by (auto simp: wrap_step_def Let_def newline_table_nonempty add_word_table_nonempty
        foldl_add_part_table_nonempty split: if_splits)

lemma wrap_loop_table_nonempty:
  "wrap_loop tp st ws = Inr st' \<Longrightarrow> table st \<noteq> [] \<Longrightarrow> table st' \<noteq> []"
proof (induction ws arbitrary: st)
  case Nil
  then show ?case by simp
next
  case (Cons w ws)
  from Cons.prems(1) obtain s1 where s1: "wrap_step tp st w = Inr s1" "wrap_loop tp s1 ws = Inr st'"
    by (cases "wrap_step tp st w") simp_all
  have "table s1 \<noteq> []" using s1(1) Cons.prems(2) by (rule wrap_step_table_nonempty)
  with s1(2) show ?case by (rule Cons.IH)
qed

lemma IMAGE_PIX_WIDTH_nonneg: "0 \<le> IMAGE_PIX_WIDTH tp"
  by (simp add: IMAGE_PIX_WIDTH_def)

lemma line_pixels_simps [simp]:
  "line_pixels [] = 0" "line_pixels (l @ [p]) = line_pixels l + word_pix_length p"
  by (simp_all add: line_pixels_def)

lemma wrapper_init_inv: "wrap_inv (wrapper_init tp)"
  by (simp add: wrap_inv_def wrapper_init_def)

lemma newline_last [simp]: "last (table (newline tp st)) = []"
  by (simp add: newline_def)

lemma newline_inv:
  assumes "wrap_inv st"
  shows "wrap_inv (newline tp st)"
proof (cases "last (table st) = []")
  case True
  with assms show ?thesis by (simp add: newline_def)
next
  case False
  have ne: "table st \<noteq> []" using assms by (simp add: wrap_inv_def)
  have "\<forall>l \<in> set (table st). l \<noteq> []"
  proof
    fix l assume "l \<in> set (table st)"
    then have "l \<in> set (butlast (table st) @ [last (table st)])" using ne by simp
    then have "l \<in> set (butlast (table st)) \<or> l = last (table st)" by auto
    then show "l \<noteq> []" using assms False by (auto simp: wrap_inv_def)
  qed
  with assms False show ?thesis
    by (simp add: newline_def wrap_inv_def)
qed

lemma add_word_inv:
  assumes inv: "wrap_inv st"
    and nl: "NEWLINE \<notin> set (fst p)"
  shows "wrap_inv (add_word n p st)"
proof -
  let ?t = "table st"
  have ne: "?t \<noteq> []" using inv by (simp add: wrap_inv_def)
  have lastin: "last ?t \<in> set ?t" using ne by simp
  have bl: "\<And>l. l \<in> set (butlast ?t) \<Longrightarrow> l \<in> set ?t" by (rule in_set_butlastD)
  have c2: "\<forall>l \<in> set (butlast ?t). l \<noteq> []" using inv by (simp add: wrap_inv_def)
  have c3: "\<forall>l \<in> set ?t. \<forall>q \<in> set l. NEWLINE \<notin> set (fst q)"
    using inv by (simp add: wrap_inv_def)
  have n3: "\<forall>q \<in> set (last ?t @ [p]). NEWLINE \<notin> set (fst q)"
    using c3 lastin nl by auto
  have t': "table (add_word n p st) = butlast ?t @ [last ?t @ [p]]"
    by (simp add: add_word_def)
  have s': "set (butlast ?t @ [last ?t @ [p]]) = insert (last ?t @ [p]) (set (butlast ?t))"
    by simp
  have a1: "table (add_word n p st) \<noteq> []" unfolding t' by simp
  have a2: "\<forall>l \<in> set (butlast (table (add_word n p st))). l \<noteq> []"
    unfolding t' using c2 by (simp only: butlast_snoc)
  have a3: "\<forall>l \<in> set (table (add_word n p st)). \<forall>q \<in> set l. NEWLINE \<notin> set (fst q)"
    unfolding t' s' using c3 n3 bl by blast
  show ?thesis
    unfolding wrap_inv_def using a1 a2 a3 by blast
qed

lemma py_slice_subset: "set (py_slice s i j) \<subseteq> set s"
proof -
  have "set (py_slice s i j) \<subseteq> set (drop (slice_bound (int (length s)) i) s)"
    unfolding py_slice_def Let_def by (rule set_take_subset)
  also have "\<dots> \<subseteq> set s" by (rule set_drop_subset)
  finally show ?thesis .
qed

lemma add_part_inv:
  assumes inv: "wrap_inv st" and w: "NEWLINE \<notin> set (fst w)"
  shows "wrap_inv (add_part tp w k st idx)"
proof -
  let ?p = "(py_slice (fst w) (idx * k) ((idx + 1) * k), snd w)"
  have nl: "NEWLINE \<notin> set (fst ?p)" using w py_slice_subset [of "fst w"] by auto
  have "wrap_inv (add_word (word_pix_length w) ?p (newline tp st))"
    using newline_inv [OF inv] nl by (rule add_word_inv)
  then show ?thesis by (simp add: add_part_def)
qed

lemma foldl_add_part_inv:
  assumes w: "NEWLINE \<notin> set (fst w)"
  shows "wrap_inv st \<Longrightarrow> wrap_inv (foldl (add_part tp w k) st idxs)"
proof (induction idxs arbitrary: st)
  case Nil
  then show ?case by simp
next
  case (Cons i idxs)
  have "wrap_inv (add_part tp w k st i)" using Cons.prems w by (rule add_part_inv)
  then have "wrap_inv (foldl (add_part tp w k) (add_part tp w k st i) idxs)" by (rule Cons.IH)
  then show ?case by simp
qed

lemma wrap_step_inv:
  assumes inv: "wrap_inv st"
    and w: "emitted_ok w"
    and step: "wrap_step tp st w = Inr st'"
  shows "wrap_inv st'"
proof (cases "fst w = [NEWLINE]")
  case True
  with step have "st' = newline tp st" by (simp add: wrap_step_def)
  then show ?thesis using newline_inv [OF inv] by simp
next
  case False
  then have nl: "NEWLINE \<notin> set (fst w)" using w by (simp add: emitted_ok_def word_ok_def)
  consider (fits) "word_pix_length w \<le> line_pix_len st"
    | (fresh) "\<not> word_pix_length w \<le> line_pix_len st" "word_pix_length w \<le> IMAGE_PIX_WIDTH tp"
    | (split) "\<not> word_pix_length w \<le> line_pix_len st" "IMAGE_PIX_WIDTH tp < word_pix_length w"
    by linarith
  then show ?thesis
  proof cases
    case fits
    with step False have "st' = add_word (word_pix_length w) w st" by (simp add: wrap_step_def)
    then show ?thesis using add_word_inv [OF inv nl] by simp
  next
    case fresh
    with step False have "st' = add_word (word_pix_length w) w (newline tp st)"
      by (simp add: wrap_step_def)
    then show ?thesis using add_word_inv [OF newline_inv [OF inv] nl] by simp
  next
    case split
    with step False have
      "st' = foldl (add_part tp w (IMAGE_PIX_WIDTH tp div letter_height (snd w))) st
               (map int [0..<nat ((word_pix_length w - 1) div IMAGE_PIX_WIDTH tp + 1)])"
      by (simp add: wrap_step_def Let_def split: if_splits)
    then show ?thesis
      using foldl_add_part_inv [OF nl inv] by simp
  qed
qed

lemma wrap_loop_inv:
  "wrap_loop tp st xs = Inr st' \<Longrightarrow> wrap_inv st \<Longrightarrow> list_all emitted_ok xs \<Longrightarrow> wrap_inv st'"
proof (induction xs arbitrary: st)
  case Nil
  then show ?case by simp
next
  case (Cons x xs)
  from Cons.prems(1) obtain s1 where s1: "wrap_step tp st x = Inr s1" "wrap_loop tp s1 xs = Inr st'"
    by (cases "wrap_step tp st x") simp_all
  have xok: "emitted_ok x" and rest: "list_all emitted_ok xs" using Cons.prems(3) by simp_all
  have "wrap_inv s1" by (rule wrap_step_inv [OF Cons.prems(2) xok s1(1)])
  with s1(2) show ?case using rest by (rule Cons.IH)
qed

lemma word_table_inv:
  assumes "word_table tp text = Inr tbl"
  obtains ws st where "text_words tp text = Inr ws" "ws \<noteq> []" "list_all emitted_ok ws"
    "wrap_loop tp (wrapper_init tp) ws = Inr st" "tbl = table st" "wrap_inv st"
proof -
  from assms obtain ws where ws: "text_words tp text = Inr ws"
    by (cases "text_words tp text") (simp_all add: word_table_def)
  with assms obtain st where st: "wrap_loop tp (wrapper_init tp) ws = Inr st" "tbl = table st"
    by (cases "wrap_loop tp (wrapper_init tp) ws") (auto simp: word_table_def)
  from ws obtain ltrs where l: "words ltrs = Inr ws"
    by (cases "letters tp text") (simp_all add: text_words_def)
  have ok: "list_all emitted_ok ws" using l by (rule words_emitted_ok)
  have ne: "ws \<noteq> []" using l by (rule words_nonempty)
  have "wrap_inv st" using st(1) wrapper_init_inv ok by (rule wrap_loop_inv)
  with ws st ok ne show ?thesis using that by blast
qed

lemma wrap_loop_snoc:
  "wrap_loop tp st (xs @ [w]) =
     (case wrap_loop tp st xs of Inl e \<Rightarrow> Inl e | Inr s \<Rightarrow> wrap_step tp s w)"
proof (induction xs arbitrary: st)
  case Nil
  show ?case by (cases "wrap_step tp st w") simp_all
next
  case (Cons x xs)
  then show ?case by (cases "wrap_step tp st x") simp_all
qed

lemma add_word_last: "last (table (add_word n p st)) \<noteq> []"
  by (simp add: add_word_def)

lemma foldl_add_part_last:
  "idxs \<noteq> [] \<Longrightarrow> last (table (foldl (add_part tp w k) st idxs)) \<noteq> []"
proof (induction idxs rule: rev_induct)
  case Nil
  then show ?case by simp
next
  case (snoc i idxs)
  show ?case by (simp add: add_part_def add_word_last)
qed

lemma lines_count_pos:
  assumes "IMAGE_PIX_WIDTH tp \<noteq> 0" "IMAGE_PIX_WIDTH tp < n"
  shows "0 < nat ((n - 1) div IMAGE_PIX_WIDTH tp + 1)"
proof -
  have "0 < IMAGE_PIX_WIDTH tp" using assms(1) IMAGE_PIX_WIDTH_nonneg [of tp] by linarith
  moreover have "0 \<le> n - 1" using assms(2) IMAGE_PIX_WIDTH_nonneg [of tp] by linarith
  ultimately have "0 \<le> (n - 1) div IMAGE_PIX_WIDTH tp"
    by (simp add: pos_imp_zdiv_nonneg_iff)
  then show ?thesis by simp
qed

lemma wrap_step_last_nonempty:
  assumes "wrap_step tp st w = Inr st'" "fst w \<noteq> [NEWLINE]"
  shows "last (table st') \<noteq> []"
proof -
  consider (fits) "word_pix_length w \<le> line_pix_len st"
    | (fresh) "\<not> word_pix_length w \<le> line_pix_len st" "word_pix_length w \<le> IMAGE_PIX_WIDTH tp"
    | (split) "\<not> word_pix_length w \<le> line_pix_len st" "IMAGE_PIX_WIDTH tp < word_pix_length w"
    by linarith
  then show ?thesis
  proof cases
    case fits
    with assms have "st' = add_word (word_pix_length w) w st" by (simp add: wrap_step_def)
    then show ?thesis by (simp add: add_word_last)
  next
    case fresh
    with assms have "st' = add_word (word_pix_length w) w (newline tp st)"
      by (simp add: wrap_step_def)
    then show ?thesis by (simp add: add_word_last)
  next
    case split
    with assms have nz: "IMAGE_PIX_WIDTH tp \<noteq> 0"
      by (auto simp: wrap_step_def split: if_splits)
    from split assms have e:
      "st' = foldl (add_part tp w (IMAGE_PIX_WIDTH tp div letter_height (snd w))) st
               (map int [0..<nat ((word_pix_length w - 1) div IMAGE_PIX_WIDTH tp + 1)])"
      by (simp add: wrap_step_def Let_def split: if_splits)
    have ne: "map int [0..<nat ((word_pix_length w - 1) div IMAGE_PIX_WIDTH tp + 1)] \<noteq> []"
      using lines_count_pos [OF nz split(2)] by simp
    show ?thesis unfolding e by (rule foldl_add_part_last [OF ne])
  qed
qed


subsection \<open>The forced split\<close>

lemma lines_count_ceiling:
  assumes "0 < (W :: int)"
  shows "(n - 1) div W + 1 = \<lceil>of_int n / (of_int W :: rat)\<rceil>"
proof -
  let ?q = "(n - 1) div W"
  have m: "n - 1 = W * ?q + (n - 1) mod W" by simp
  have r: "0 \<le> (n - 1) mod W" "(n - 1) mod W < W" using assms by simp_all
  have a: "W * ?q < n" using m r by linarith
  have b: "n \<le> W * ?q + W" using m r by linarith
  have W: "(0 :: rat) < of_int W" using assms by simp
  have "(of_int (W * ?q) :: rat) < of_int n" using a by (simp only: of_int_less_iff)
  then have "(of_int ?q :: rat) * of_int W < of_int n" by (simp add: mult.commute)
  then have "(of_int ?q :: rat) < of_int n / of_int W"
    using W by (simp add: pos_less_divide_eq)
  then have lo: "(of_int (?q + 1) :: rat) - 1 < of_int n / of_int W" by simp
  have "(of_int n :: rat) \<le> of_int (W * ?q + W)" using b by (simp only: of_int_le_iff)
  then have "(of_int n :: rat) \<le> of_int (?q + 1) * of_int W"
    by (simp add: mult.commute distrib_left)
  then have hi: "of_int n / of_int W \<le> (of_int (?q + 1) :: rat)"
    using W by (simp add: pos_divide_le_eq)
  show ?thesis using lo hi by (rule ceiling_unique [symmetric])
qed

lemma part_len_floor: "(W :: int) div h = \<lfloor>of_int W / (of_int h :: rat)\<rfloor>"
  by (simp add: floor_divide_of_int_eq)

lemma py_slice_take_drop:
  assumes "0 \<le> k"
  shows "py_slice s (int i * k) ((int i + 1) * k) = take (nat k) (drop (i * nat k) s)"
proof -
  obtain m where k: "k = int m" using assms by (metis nonneg_int_cases)
  have e1: "int i * k = int (i * m)" unfolding k by simp
  have e2: "(int i + 1) * k = int ((i + 1) * m)" unfolding k by (simp add: algebra_simps)
  have sb: "\<And>a. slice_bound (int (length s)) (int a) = min (length s) a"
    unfolding slice_bound_def by (simp add: min_def)
  show ?thesis
  proof (cases "length s \<le> i * m")
    case True
    then show ?thesis unfolding py_slice_def Let_def e1 e2 unfolding sb k by simp
  next
    case False
    have "(i + 1) * m = i * m + m" by simp
    with False have d:
      "min (length s) ((i + 1) * m) - min (length s) (i * m) = min (length s - i * m) m"
      by (simp only: min_def) arith
    have t: "take (min (length s - i * m) m) (drop (i * m) s) = take m (drop (i * m) s)"
      by (simp add: min_def)
    have l: "min (length s) (i * m) = i * m" using False by simp
    show ?thesis unfolding py_slice_def Let_def e1 e2 unfolding sb d unfolding l t k by simp
  qed
qed

lemma add_part_table_fresh:
  assumes "table st \<noteq> []"
  shows "table (add_part tp w k st idx) =
           (if last (table st) = [] then butlast (table st) else table st)
           @ [[(py_slice (fst w) (idx * k) ((idx + 1) * k), snd w)]]"
  using assms by (simp add: add_part_def add_word_def newline_def)

lemma foldl_add_part_table:
  "last (table st) \<noteq> [] \<Longrightarrow> table st \<noteq> [] \<Longrightarrow>
   table (foldl (add_part tp w k) st (map int idxs)) =
     table st @ map (\<lambda>i. [(py_slice (fst w) (int i * k) ((int i + 1) * k), snd w)]) idxs"
proof (induction idxs arbitrary: st)
  case Nil
  then show ?case by simp
next
  case (Cons i idxs)
  let ?s = "add_part tp w k st (int i)"
  have t: "table ?s = table st @ [[(py_slice (fst w) (int i * k) ((int i + 1) * k), snd w)]]"
    using Cons.prems by (simp add: add_part_table_fresh)
  then have "last (table ?s) \<noteq> []" "table ?s \<noteq> []" by simp_all
  then have "table (foldl (add_part tp w k) ?s (map int idxs)) =
     table ?s @ map (\<lambda>i. [(py_slice (fst w) (int i * k) ((int i + 1) * k), snd w)]) idxs"
    by (rule Cons.IH)
  then show ?case by (simp add: t)
qed

lemma forced_split_table:
  assumes "table st \<noteq> []" "0 < n"
  shows "table (foldl (add_part tp w k) st (map int [0..<n])) =
           (if last (table st) = [] then butlast (table st) else table st)
           @ map (\<lambda>i. [(py_slice (fst w) (int i * k) ((int i + 1) * k), snd w)]) [0..<n]"
proof -
  let ?s = "add_part tp w k st (int 0)"
  let ?f = "\<lambda>i. [(py_slice (fst w) (int i * k) ((int i + 1) * k), snd w)]"
  have u: "[0..<n] = 0 # [Suc 0..<n]" using assms(2) by (simp add: upt_conv_Cons)
  have t: "table ?s = (if last (table st) = [] then butlast (table st) else table st) @ [?f 0]"
    by (rule add_part_table_fresh [OF assms(1)])
  then have "last (table ?s) \<noteq> []" "table ?s \<noteq> []" by simp_all
  then have "table (foldl (add_part tp w k) ?s (map int [Suc 0..<n])) =
               table ?s @ map ?f [Suc 0..<n]"
    by (rule foldl_add_part_table)
  then have "table (foldl (add_part tp w k) st (map int (0 # [Suc 0..<n]))) =
               (if last (table st) = [] then butlast (table st) else table st)
               @ map ?f (0 # [Suc 0..<n])"
    unfolding t by simp
  then show ?thesis unfolding u [symmetric] .
qed

subsection \<open>The budget\<close>

text \<open>
  With fonts of non-negative letter width, as \<^verbatim>\<open>getsize\<close> gives them, the budget
  \<^verbatim>\<open>line_pix_len\<close> never exceeds the canvas width.
\<close>

lemma newline_budget:
  "line_pix_len st \<le> IMAGE_PIX_WIDTH tp \<Longrightarrow> line_pix_len (newline tp st) \<le> IMAGE_PIX_WIDTH tp"
  by (simp add: newline_def)

lemma add_word_budget:
  "0 \<le> n \<Longrightarrow> line_pix_len st \<le> IMAGE_PIX_WIDTH tp \<Longrightarrow>
   line_pix_len (add_word n p st) \<le> IMAGE_PIX_WIDTH tp"
  by (simp add: add_word_def)

lemma foldl_add_part_budget:
  "0 \<le> word_pix_length w \<Longrightarrow> line_pix_len st \<le> IMAGE_PIX_WIDTH tp \<Longrightarrow>
   line_pix_len (foldl (add_part tp w k) st idxs) \<le> IMAGE_PIX_WIDTH tp"
proof (induction idxs arbitrary: st)
  case Nil
  then show ?case by simp
next
  case (Cons i idxs)
  have "line_pix_len (add_part tp w k st i) \<le> IMAGE_PIX_WIDTH tp"
    unfolding add_part_def
    by (rule add_word_budget [OF Cons.prems(1) newline_budget [OF Cons.prems(2)]])
  then show ?case using Cons by simp
qed

lemma wrap_step_budget:
  assumes "wrap_step tp st w = Inr st'" "0 \<le> letter_width (snd w)"
    "line_pix_len st \<le> IMAGE_PIX_WIDTH tp"
  shows "line_pix_len st' \<le> IMAGE_PIX_WIDTH tp"
proof -
  have n: "0 \<le> word_pix_length w" using assms(2) by (rule word_pix_length_nonneg)
  show ?thesis
    using assms(1,3) n
    by (auto simp: wrap_step_def Let_def newline_budget add_word_budget foldl_add_part_budget
          split: if_splits)
qed

lemma wrap_loop_budget:
  "wrap_loop tp st ws = Inr st' \<Longrightarrow> \<forall>w \<in> set ws. 0 \<le> letter_width (snd w) \<Longrightarrow>
   line_pix_len st \<le> IMAGE_PIX_WIDTH tp \<Longrightarrow> line_pix_len st' \<le> IMAGE_PIX_WIDTH tp"
proof (induction ws arbitrary: st)
  case Nil
  then show ?case by simp
next
  case (Cons w ws)
  from Cons.prems(1) obtain s1 where s1: "wrap_step tp st w = Inr s1" "wrap_loop tp s1 ws = Inr st'"
    by (cases "wrap_step tp st w") simp_all
  have "line_pix_len s1 \<le> IMAGE_PIX_WIDTH tp"
    using s1(1) _ Cons.prems(3) by (rule wrap_step_budget) (simp add: Cons.prems(2))
  then show ?case using Cons.IH [OF s1(2)] Cons.prems(2) by simp
qed

lemma table_no_newline:
  assumes "word_table tp text = Inr tbl"
  shows "\<forall>l \<in> set tbl. \<forall>p \<in> set l. NEWLINE \<notin> set (fst p)"
proof -
  from assms obtain ws st where "tbl = table st" "wrap_inv st"
    by (rule word_table_inv)
  then show ?thesis by (simp add: wrap_inv_def)
qed




subsection \<open>The marked run\<close>

text \<open>The marked run is the run of the program, with the marks forgotten.\<close>

lemma unmark_fields [simp]:
  "table (unmark m) = map (map fst) (mtable m)" "line_pix_len (unmark m) = mline_pix_len m"
  by (simp_all add: unmark_def)

lemma newline_m_nonempty: "mtable m \<noteq> [] \<Longrightarrow> mtable (newline_m tp m) \<noteq> []"
  by (simp add: newline_m_def)

lemma add_word_m_nonempty: "mtable (add_word_m n p m) \<noteq> []"
  by (simp add: add_word_m_def)

lemma unmark_newline:
  assumes "mtable m \<noteq> []"
  shows "unmark (newline_m tp m) = newline tp (unmark m)"
proof -
  have "last (map (map fst) (mtable m)) = map fst (last (mtable m))"
    using assms by (rule last_map)
  then show ?thesis by (simp add: unmark_def newline_m_def newline_def)
qed

lemma unmark_add_word:
  assumes "mtable m \<noteq> []"
  shows "unmark (add_word_m n p m) = add_word n (fst p) (unmark m)"
proof -
  have "last (map (map fst) (mtable m)) = map fst (last (mtable m))"
    using assms by (rule last_map)
  then show ?thesis by (simp add: unmark_def add_word_m_def add_word_def map_butlast)
qed

lemma unmark_add_part:
  assumes "mtable m \<noteq> []"
  shows "unmark (add_part_m tp w k m idx) = add_part tp w k (unmark m) idx"
proof -
  have "mtable (newline_m tp m) \<noteq> []" using assms by (rule newline_m_nonempty)
  then show ?thesis
    unfolding add_part_m_def add_part_def
    by (simp add: unmark_add_word unmark_newline [OF assms])
qed

lemma add_part_m_nonempty: "mtable (add_part_m tp w k m idx) \<noteq> []"
  by (simp add: add_part_m_def add_word_m_nonempty)

lemma unmark_foldl_add_part:
  "mtable m \<noteq> [] \<Longrightarrow>
   unmark (foldl (add_part_m tp w k) m idxs) = foldl (add_part tp w k) (unmark m) idxs \<and>
   mtable (foldl (add_part_m tp w k) m idxs) \<noteq> []"
proof (induction idxs arbitrary: m)
  case Nil
  then show ?case by simp
next
  case (Cons i idxs)
  have "mtable (add_part_m tp w k m i) \<noteq> []" by (rule add_part_m_nonempty)
  from Cons.IH [OF this] show ?case by (simp add: unmark_add_part [OF Cons.prems])
qed

lemma unmark_step:
  assumes "mtable m \<noteq> []"
  shows "wrap_step tp (unmark m) w = map_sum id unmark (wrap_step_m tp m w)"
  unfolding wrap_step_def wrap_step_m_def Let_def
  using newline_m_nonempty [OF assms, of tp]
  by (simp add: unmark_newline [OF assms] unmark_add_word [OF assms] unmark_add_word
      unmark_foldl_add_part [OF assms])

lemma wrap_step_m_nonempty:
  assumes "wrap_step_m tp m w = Inr m'" "mtable m \<noteq> []"
  shows "mtable m' \<noteq> []"
proof -
  have "mtable (foldl (add_part_m tp w k) m idxs) \<noteq> []" for k idxs
    using unmark_foldl_add_part [OF assms(2), of tp w k idxs] by simp
  then show ?thesis
    using assms
    by (auto simp: wrap_step_m_def Let_def newline_m_nonempty add_word_m_nonempty
          split: if_splits)
qed

lemma unmark_loop:
  "mtable m \<noteq> [] \<Longrightarrow> wrap_loop tp (unmark m) ws = map_sum id unmark (wrap_loop_m tp m ws)"
proof (induction ws arbitrary: m)
  case Nil
  then show ?case by simp
next
  case (Cons w ws)
  show ?case
  proof (cases "wrap_step_m tp m w")
    case (Inl e)
    then show ?thesis using unmark_step [OF Cons.prems, of tp w] by simp
  next
    case (Inr m')
    then have "mtable m' \<noteq> []" using Cons.prems by (rule wrap_step_m_nonempty)
    then have "wrap_loop tp (unmark m') ws = map_sum id unmark (wrap_loop_m tp m' ws)"
      by (rule Cons.IH)
    then show ?thesis using Inr unmark_step [OF Cons.prems, of tp w] by (simp add: id_def)
  qed
qed

lemma unmark_init: "unmark (marked_init tp) = wrapper_init tp"
  by (simp add: unmark_def marked_init_def wrapper_init_def)

lemma word_table_unmark:
  "word_table tp text = map_sum id (map (map fst)) (marked_table tp text)"
proof (cases "text_words tp text")
  case (Inl e)
  then show ?thesis by (simp add: word_table_def marked_table_def)
next
  case (Inr ws)
  have ne: "mtable (marked_init tp) \<noteq> []" by (simp add: marked_init_def)
  have "wrap_loop tp (wrapper_init tp) ws = map_sum id unmark (wrap_loop_m tp (marked_init tp) ws)"
    using unmark_loop [OF ne, of tp ws] by (simp only: unmark_init)
  then show ?thesis using Inr
    by (cases "wrap_loop_m tp (marked_init tp) ws") (simp_all add: word_table_def marked_table_def)
qed

text \<open>The invariant of the marked run.\<close>

lemma has_mark_simps [simp]:
  "\<not> has_mark []" "has_mark (l @ [p]) \<longleftrightarrow> has_mark l \<or> snd p"
  by (auto simp: has_mark_def)

lemma marked_init_inv: "marked_inv tp (marked_init tp)"
  by (simp add: marked_inv_def marked_init_def IMAGE_PIX_WIDTH_nonneg)

lemma newline_m_last [simp]: "last (mtable (newline_m tp m)) = []"
  by (simp add: newline_m_def)

lemma newline_m_inv:
  assumes "marked_inv tp m"
  shows "marked_inv tp (newline_m tp m)"
  using assms by (auto simp: newline_m_def marked_inv_def IMAGE_PIX_WIDTH_nonneg)

lemma newline_m_budget:
  assumes "marked_inv tp m"
  shows "mline_pix_len (newline_m tp m) = IMAGE_PIX_WIDTH tp"
  using assms by (auto simp: newline_m_def marked_inv_def)

lemma add_word_m_inv:
  assumes inv: "marked_inv tp m"
    and fits: "snd p \<or> (n = word_pix_length (fst p) \<and> n \<le> mline_pix_len m)"
  shows "marked_inv tp (add_word_m n p m)"
proof -
  let ?t = "mtable m"
  let ?W = "IMAGE_PIX_WIDTH tp"
  have bl: "\<And>l. l \<in> set (butlast ?t) \<Longrightarrow> l \<in> set ?t" by (rule in_set_butlastD)
  have c4: "\<forall>l \<in> set ?t. has_mark l \<or> line_pixels (map fst l) \<le> ?W"
    using inv by (simp add: marked_inv_def)
  have c5: "has_mark (last ?t) \<or>
       (line_pixels (map fst (last ?t)) = ?W - mline_pix_len m \<and> 0 \<le> mline_pix_len m)"
    using inv by (simp add: marked_inv_def)
  have n5: "has_mark (last ?t @ [p]) \<or>
       (line_pixels (map fst (last ?t @ [p])) = ?W - (mline_pix_len m - n)
        \<and> 0 \<le> mline_pix_len m - n)"
    using c5 fits by auto
  then have n4: "has_mark (last ?t @ [p]) \<or> line_pixels (map fst (last ?t @ [p])) \<le> ?W"
    by auto
  have t': "mtable (add_word_m n p m) = butlast ?t @ [last ?t @ [p]]"
    and l': "mline_pix_len (add_word_m n p m) = mline_pix_len m - n"
    by (simp_all add: add_word_m_def)
  have s': "set (butlast ?t @ [last ?t @ [p]]) = insert (last ?t @ [p]) (set (butlast ?t))"
    by simp
  have a1: "mtable (add_word_m n p m) \<noteq> []" unfolding t' by simp
  have a4: "\<forall>l \<in> set (mtable (add_word_m n p m)).
              has_mark l \<or> line_pixels (map fst l) \<le> ?W"
    unfolding t' s' using c4 n4 bl by blast
  have a5: "has_mark (last (mtable (add_word_m n p m))) \<or>
       (line_pixels (map fst (last (mtable (add_word_m n p m))))
          = ?W - mline_pix_len (add_word_m n p m)
        \<and> 0 \<le> mline_pix_len (add_word_m n p m))"
    unfolding t' l' using n5 by (simp only: last_snoc)
  show ?thesis
    unfolding marked_inv_def using a1 a4 a5 by blast
qed

lemma add_part_m_inv:
  assumes "marked_inv tp m"
  shows "marked_inv tp (add_part_m tp w k m idx)"
  unfolding add_part_m_def
  using newline_m_inv [OF assms] by (rule add_word_m_inv) simp

lemma foldl_add_part_m_inv:
  "marked_inv tp m \<Longrightarrow> marked_inv tp (foldl (add_part_m tp w k) m idxs)"
proof (induction idxs arbitrary: m)
  case Nil
  then show ?case by simp
next
  case (Cons i idxs)
  have "marked_inv tp (add_part_m tp w k m i)" using Cons.prems by (rule add_part_m_inv)
  then have "marked_inv tp (foldl (add_part_m tp w k) (add_part_m tp w k m i) idxs)"
    by (rule Cons.IH)
  then show ?case by simp
qed

lemma wrap_step_m_inv:
  assumes inv: "marked_inv tp m" and step: "wrap_step_m tp m w = Inr m'"
  shows "marked_inv tp m'"
proof (cases "fst w = [NEWLINE]")
  case True
  with step have "m' = newline_m tp m" by (simp add: wrap_step_m_def)
  then show ?thesis using newline_m_inv [OF inv] by simp
next
  case False
  consider (fits) "word_pix_length w \<le> mline_pix_len m"
    | (fresh) "\<not> word_pix_length w \<le> mline_pix_len m" "word_pix_length w \<le> IMAGE_PIX_WIDTH tp"
    | (split) "\<not> word_pix_length w \<le> mline_pix_len m" "IMAGE_PIX_WIDTH tp < word_pix_length w"
    by linarith
  then show ?thesis
  proof cases
    case fits
    with step False have e: "m' = add_word_m (word_pix_length w) (w, False) m"
      by (simp add: wrap_step_m_def)
    show ?thesis unfolding e using inv by (rule add_word_m_inv) (simp add: fits)
  next
    case fresh
    with step False have e: "m' = add_word_m (word_pix_length w) (w, False) (newline_m tp m)"
      by (simp add: wrap_step_m_def)
    show ?thesis unfolding e using newline_m_inv [OF inv]
      by (rule add_word_m_inv) (simp add: newline_m_budget [OF inv] fresh)
  next
    case split
    with step False have e:
      "m' = foldl (add_part_m tp w (IMAGE_PIX_WIDTH tp div letter_height (snd w))) m
               (map int [0..<nat ((word_pix_length w - 1) div IMAGE_PIX_WIDTH tp + 1)])"
      by (simp add: wrap_step_m_def Let_def split: if_splits)
    show ?thesis unfolding e using inv by (rule foldl_add_part_m_inv)
  qed
qed

lemma wrap_loop_m_inv:
  "wrap_loop_m tp m ws = Inr m' \<Longrightarrow> marked_inv tp m \<Longrightarrow> marked_inv tp m'"
proof (induction ws arbitrary: m)
  case Nil
  then show ?case by simp
next
  case (Cons w ws)
  from Cons.prems(1) obtain m1 where m1: "wrap_step_m tp m w = Inr m1" "wrap_loop_m tp m1 ws = Inr m'"
    by (cases "wrap_step_m tp m w") simp_all
  have "marked_inv tp m1" using Cons.prems(2) m1(1) by (rule wrap_step_m_inv)
  with m1(2) show ?case by (rule Cons.IH)
qed
section \<open>The examples, evaluated\<close>

lemma has_symbol_font_A:
  "has_symbol font_A c \<longleftrightarrow> c = 10 \<or> c = 32 \<or> (65 \<le> c \<and> c < 91) \<or> (97 \<le> c \<and> c < 123)"
  by (auto simp: has_symbol_def font_A_def simp del: upt_rec_numeral)

lemma width_font_A_processor: "IMAGE_PIX_WIDTH font_A_processor = 100"
  by (simp add: IMAGE_PIX_WIDTH_def font_A_processor_def)

lemma word_pix_length_font_A:
  "length s < 1000 \<Longrightarrow> word_pix_length (s, font_A) = 10 * int (length s) + 1"
  using word_pix_length_int_width [of "(s, font_A)" 10] by (simp add: font_A_def)

lemma text_words_ab_cd:
  "text_words font_A_processor (ascii ''ab\<newline>cd'') =
     Inr [(ascii ''ab'', font_A), ([NEWLINE], font_A), (ascii ''cd'', font_A)]"
  by (simp add: text_words_def letters_def ascii_def strip_def font_A_processor_def
        letters_step_def has_symbol_font_A SPACE_def NEWLINE_def
        words_def words_step_def append_letter_def new_word_def Let_def)

lemma wrap_loop_ab_cd:
  "wrap_loop font_A_processor (wrapper_init font_A_processor)
     [(ascii ''ab'', font_A), ([NEWLINE], font_A), (ascii ''cd'', font_A)] =
   Inr \<lparr>table = [[(ascii ''ab'', font_A)], [(ascii ''cd'', font_A)]], line_pix_len = 79\<rparr>"
  by (simp add: wrap_step_def word_pix_length_font_A wrapper_init_def newline_def add_word_def
        width_font_A_processor ascii_def NEWLINE_def)

lemma word_table_ab_cd:
  "word_table font_A_processor (ascii ''ab\<newline>cd'') =
     Inr [[(ascii ''ab'', font_A)], [(ascii ''cd'', font_A)]]"
  by (simp add: word_table_def text_words_ab_cd wrap_loop_ab_cd del: wrap_loop.simps)

lemma replicate_30:
  "replicate 30 x = [x, x, x, x, x, x, x, x, x, x, x, x, x, x, x, x, x, x, x, x,
                     x, x, x, x, x, x, x, x, x, x]"
  by (simp add: eval_nat_numeral)

lemma upt_0_4: "[0..<4] = [0, 1, 2, 3]"
  by (simp add: eval_nat_numeral)

lemma text_words_30m:
  "text_words font_A_processor (replicate 30 109) = Inr [(replicate 30 109, font_A)]"
  unfolding replicate_30
  by (simp add: text_words_def letters_def strip_def font_A_processor_def
        letters_step_def has_symbol_font_A SPACE_def NEWLINE_def
        words_def words_step_def append_letter_def new_word_def Let_def)

text \<open>
  The text \<^verbatim>\<open>ab\<close>, a space and 30 letters \<^verbatim>\<open>m\<close>: the word \<^verbatim>\<open>ab\<close> is placed whole, and
  the word of the space and the letters \<^verbatim>\<open>m\<close>, 311 pixels long, is split.
\<close>

lemma text_words_ab_30m:
  "text_words font_A_processor (ascii ''ab '' @ replicate 30 109) =
     Inr [(ascii ''ab'', font_A), (32 # replicate 30 109, font_A)]"
  unfolding replicate_30
  by (simp add: text_words_def letters_def ascii_def strip_def font_A_processor_def
        letters_step_def has_symbol_font_A SPACE_def NEWLINE_def
        words_def words_step_def append_letter_def new_word_def Let_def)

lemma marked_table_ab_30m:
  "marked_table font_A_processor (ascii ''ab '' @ replicate 30 109) =
     Inr [[((ascii ''ab'', font_A), False)],
          [((32 # replicate 4 109, font_A), True)],
          [((replicate 5 109, font_A), True)],
          [((replicate 5 109, font_A), True)],
          [((replicate 5 109, font_A), True)]]"
  unfolding marked_table_def text_words_ab_30m
  by (simp add: wrap_step_m_def word_pix_length_font_A marked_init_def newline_m_def
        add_word_m_def add_part_m_def width_font_A_processor ascii_def NEWLINE_def
        font_A_def [THEN arg_cong [of _ _ letter_height]] upt_0_4 py_slice_def slice_bound_def
        replicate_30 eval_nat_numeral)

lemma word_table_ab_30m:
  "word_table font_A_processor (ascii ''ab '' @ replicate 30 109) =
     Inr [[(ascii ''ab'', font_A)],
          [(32 # replicate 4 109, font_A)],
          [(replicate 5 109, font_A)],
          [(replicate 5 109, font_A)],
          [(replicate 5 109, font_A)]]"
  unfolding word_table_unmark marked_table_ab_30m by simp

lemma replicate_21:
  "replicate 21 x = [x, x, x, x, x, x, x, x, x, x, x, x, x, x, x, x, x, x, x, x, x]"
  by (simp add: eval_nat_numeral)

lemma has_symbol_font_W: "has_symbol font_W c \<longleftrightarrow> c = 97"
  by (auto simp: has_symbol_def font_W_def)

lemma width_source_processor: "IMAGE_PIX_WIDTH (source_processor fnts) = 2720"
  by (simp add: IMAGE_PIX_WIDTH_def source_processor_def)

lemma float_width_font_W: "float_width font_W = 259 / 2"
  using fl_half [of 259] by (simp add: float_width_def font_W_def)

lemma word_pix_length_21a: "word_pix_length (replicate 21 97, font_W) = 2720"
  using word_pix_length_half_width [of "(replicate 21 97, font_W)" 259]
  by (simp add: font_W_def)

lemma spec_word_pixels_21a: "spec_word_pixels (replicate 21 97, font_W) = 2721"
  by (simp add: spec_word_pixels_def float_width_font_W ceiling_eq_iff)

lemma text_words_21a:
  "text_words (source_processor [font_W]) (replicate 21 97) = Inr [(replicate 21 97, font_W)]"
  unfolding replicate_21
  by (simp add: text_words_def letters_def strip_def source_processor_def
        letters_step_def has_symbol_font_W SPACE_def NEWLINE_def
        words_def words_step_def append_letter_def new_word_def Let_def)

lemma replicate_21_not_newline: "replicate 21 (97 :: nat) \<noteq> [NEWLINE]"
  by (simp add: replicate_21)

lemma wrap_step_21a:
  "wrap_step (source_processor [font_W]) (wrapper_init (source_processor [font_W]))
     (replicate 21 97, font_W) =
   Inr \<lparr>table = [[(replicate 21 97, font_W)]], line_pix_len = 0\<rparr>"
  by (simp add: wrap_step_def word_pix_length_21a replicate_21_not_newline wrapper_init_def
        width_source_processor add_word_def)

lemma word_table_21a:
  "word_table (source_processor [font_W]) (replicate 21 97) = Inr [[(replicate 21 97, font_W)]]"
  by (simp add: word_table_def text_words_21a wrap_step_21a)

lemma marked_table_21a:
  "marked_table (source_processor [font_W]) (replicate 21 97) =
     Inr [[((replicate 21 97, font_W), False)]]"
  by (simp add: marked_table_def text_words_21a wrap_step_m_def word_pix_length_21a
        replicate_21_not_newline marked_init_def width_source_processor add_word_m_def)

text \<open>43 letters of the font 126.5 pixels wide: 5439.5 pixels, twice the canvas width.\<close>

lemma float_width_font_V: "float_width font_V = 253 / 2"
  using fl_half [of 253] by (simp add: float_width_def font_V_def)

lemma word_pix_length_43a: "word_pix_length (replicate 43 97, font_V) = 5440"
  using word_pix_length_half_width [of "(replicate 43 97, font_V)" 253]
  by (simp add: font_V_def)

lemma spec_word_pixels_43a: "spec_word_pixels (replicate 43 97, font_V) = 5441"
  by (simp add: spec_word_pixels_def float_width_font_V ceiling_eq_iff)

lemma replicate_43_not_newline: "replicate 43 (97 :: nat) \<noteq> [NEWLINE]"
proof
  assume "replicate 43 (97 :: nat) = [NEWLINE]"
  then have "length (replicate 43 (97 :: nat)) = length [NEWLINE]" by (rule arg_cong)
  then show False by simp
qed

lemma upt_0_2: "[0..<2] = [0, 1]"
  by (simp add: eval_nat_numeral)

lemma take_20_replicate_43: "take 20 (replicate 43 x) = replicate 20 x"
  by simp

lemma take_20_drop_20_replicate_43: "take 20 (drop 20 (replicate 43 x)) = replicate 20 x"
  by simp

lemma wrap_step_43a:
  "wrap_step (source_processor [font_V]) (wrapper_init (source_processor [font_V]))
     (replicate 43 97, font_V) =
   Inr \<lparr>table = [[(replicate 20 97, font_V)], [(replicate 20 97, font_V)]],
        line_pix_len = - 2720\<rparr>"
proof -
  have h: "letter_height font_V = 136" by (simp add: font_V_def)
  have s0: "py_slice (replicate 43 (97 :: nat)) 0 20 = replicate 20 97"
    by (simp add: py_slice_def slice_bound_def)
  have s1: "py_slice (replicate 43 (97 :: nat)) 20 40 = replicate 20 97"
    by (simp add: py_slice_def slice_bound_def)
  show ?thesis
    by (simp add: wrap_step_def word_pix_length_43a replicate_43_not_newline wrapper_init_def
          width_source_processor h upt_0_2 add_part_def newline_def add_word_def s0 s1)
qed

lemma ceiling_5441_2720: "\<lceil>5441 / 2720 :: rat\<rceil> = 3"
  by (simp add: ceiling_eq_iff)

lemma ceiling_301_100: "\<lceil>301 / 100 :: rat\<rceil> = 4"
  by (simp add: ceiling_eq_iff)

lemma replicate_5: "replicate 5 x = [x, x, x, x, x]"
  by (simp add: eval_nat_numeral)

lemma replicate_30_not_newline: "replicate 30 (109 :: nat) \<noteq> [NEWLINE]"
  by (simp add: replicate_30)

lemma text_words_ab_nl:
  "text_words font_A_processor [97, 98, NEWLINE, VARIATION_SELECTOR_16] =
     Inr [([97, 98], font_A), ([NEWLINE], font_A)]"
  by (simp add: text_words_def letters_def strip_def font_A_processor_def
        letters_step_def has_symbol_font_A SPACE_def NEWLINE_def VARIATION_SELECTOR_16_def
        words_def words_step_def append_letter_def new_word_def Let_def)

lemma wrap_loop_ab_nl:
  "wrap_loop font_A_processor (wrapper_init font_A_processor)
     [([97, 98], font_A), ([NEWLINE], font_A)] =
   Inr \<lparr>table = [[([97, 98], font_A)], []], line_pix_len = 100\<rparr>"
  by (simp add: wrap_step_def word_pix_length_font_A wrapper_init_def newline_def add_word_def
        width_font_A_processor NEWLINE_def)

lemma word_table_ab_nl:
  "word_table font_A_processor [97, 98, NEWLINE, VARIATION_SELECTOR_16] =
     Inr [[([97, 98], font_A)], []]"
  by (simp add: word_table_def text_words_ab_nl wrap_loop_ab_nl del: wrap_loop.simps)

text \<open>
  The measure is the one of the float arithmetic. The width \<^verbatim>\<open>995 / 15\<close> is rounded
  down, 15 times the float is rounded to the float next below 995, and the word of 15
  letters is 995 pixels long, where the exact quotient would give 996.
\<close>

lemma fl_995_15: "fl (995 / 15) = 4667793363785045 / 70368744177664"
  using fl_eval [of 6 "995 / 15" 4667793363785045]
  by (simp add: power_int_minus)

lemma fl_15_width:
  "fl (15 * (4667793363785045 / 70368744177664)) = 8752112557096959 / 8796093022208"
  using fl_eval [of 9 "15 * (4667793363785045 / 70368744177664)" 8752112557096959]
  by (simp add: power_int_minus)

lemma fl_15_width_1:
  "fl (8752112557096959 / 8796093022208 + 1) = 8760908650119167 / 8796093022208"
  using fl_eval [of 9 "8752112557096959 / 8796093022208 + 1" 8760908650119167]
  by (simp add: power_int_minus)

lemma word_pix_length_15a: "word_pix_length (replicate 15 97, font_T) = 995"
proof -
  have l: "fl (of_nat (length (fst (replicate 15 (97 :: nat), font_T)))) = 15"
    using fl_of_int [of 15] by simp
  have w: "float_width (snd (replicate 15 (97 :: nat), font_T)) =
             4667793363785045 / 70368744177664"
    using fl_995_15 by (simp add: float_width_def font_T_def)
  have t: "py_int (8760908650119167 / 8796093022208) = 995"
    by (simp add: py_int_def floor_eq_iff)
  show ?thesis unfolding word_pix_length_def l w fl_15_width fl_15_width_1 by (rule t)
qed

lemma exact_quotient_15a:
  "\<lfloor>of_nat (length (replicate 15 (97 :: nat))) * letter_width font_T\<rfloor> + 1 = 996"
  by (simp add: font_T_def floor_eq_iff)
section \<open>The claims about the Line Wrapper and the Rasterizer\<close>

text \<open>
  C1, as the code has it. The Line Wrapper measures a word by
  \<^verbatim>\<open>int(len(word) * font.letter_width + 1)\<close>, computed in float arithmetic
  (\<open>word_pix_length\<close>); when the product is not an integer this is one less than the
  specification's \<open>ceil(len * width) + 1\<close>. The marked run returns the table of
  \<^verbatim>\<open>word_table\<close>, with a mark on every forced-split fragment and on nothing else, and in
  the code's measure every line of it with no marked word fits the canvas width. The
  witness is the text \<^verbatim>\<open>ab\<close>, a space and 30 letters \<^verbatim>\<open>m\<close> at the width 100: the line of
  \<^verbatim>\<open>ab\<close> has no fragment and is 21 pixels wide, the four lines after it are fragments.
\<close>

theorem line_width_bound:
  assumes "word_table tp text = Inr tbl"
  shows "\<exists>mt. marked_table tp text = Inr mt \<and> map (map fst) mt = tbl \<and>
           (\<forall>l \<in> set mt. \<not> has_mark l \<longrightarrow>
              line_pixels (map fst l) \<le> IMAGE_PIX_WIDTH tp)"
proof -
  have u: "word_table tp text = map_sum id (map (map fst)) (marked_table tp text)"
    by (rule word_table_unmark)
  from assms u obtain mt where mt: "marked_table tp text = Inr mt" "map (map fst) mt = tbl"
    by (cases "marked_table tp text") simp_all
  from mt(1) obtain ws where ws: "text_words tp text = Inr ws"
    by (cases "text_words tp text") (simp_all add: marked_table_def)
  from mt(1) ws obtain m where m: "wrap_loop_m tp (marked_init tp) ws = Inr m" "mt = mtable m"
    by (cases "wrap_loop_m tp (marked_init tp) ws") (simp_all add: marked_table_def)
  have "marked_inv tp m" using m(1) marked_init_inv by (rule wrap_loop_m_inv)
  then have "\<forall>l \<in> set mt. has_mark l \<or> line_pixels (map fst l) \<le> IMAGE_PIX_WIDTH tp"
    unfolding m(2) by (simp add: marked_inv_def)
  with mt show ?thesis by blast
qed

theorem line_width_bound_witness:
  "word_table font_A_processor (ascii ''ab '' @ replicate 30 109) =
     Inr [[(ascii ''ab'', font_A)],
          [(32 # replicate 4 109, font_A)],
          [(replicate 5 109, font_A)],
          [(replicate 5 109, font_A)],
          [(replicate 5 109, font_A)]]
   \<and> marked_table font_A_processor (ascii ''ab '' @ replicate 30 109) =
     Inr [[((ascii ''ab'', font_A), False)],
          [((32 # replicate 4 109, font_A), True)],
          [((replicate 5 109, font_A), True)],
          [((replicate 5 109, font_A), True)],
          [((replicate 5 109, font_A), True)]]
   \<and> line_pixels [(ascii ''ab'', font_A)] \<le> IMAGE_PIX_WIDTH font_A_processor"
  using line_width_bound [OF word_table_ab_30m]
  by (simp add: marked_table_ab_30m word_table_ab_30m has_mark_def)

text \<open>
  With the specification's measure \<open>ceil(len * width) + 1\<close> the bound fails, with the
  source's constants, on a font 129.5 pixels wide and the text of 21 letters \<^verbatim>\<open>a\<close>. All
  the floats involved are exact: the word is \<open>int(2719.5 + 1) = 2720\<close> pixels long for the
  code, which is the canvas width, so it stays whole, and unmarked, on the first line;
  the specification's measure of that line is 2721.
\<close>

theorem ceil_width_counterexample:
  "word_table (source_processor [font_W]) (replicate 21 97) = Inr [[(replicate 21 97, font_W)]]
   \<and> marked_table (source_processor [font_W]) (replicate 21 97) =
       Inr [[((replicate 21 97, font_W), False)]]
   \<and> \<not> spec_line_pixels [(replicate 21 97, font_W)] \<le> IMAGE_PIX_WIDTH (source_processor [font_W])"
  by (simp add: word_table_21a marked_table_21a width_source_processor spec_line_pixels_def
        spec_word_pixels_21a)

text \<open>
  C2, as the code has it: the pixel length of the word is the code's
  \<^verbatim>\<open>int(len(word) * font.letter_width + 1)\<close> in float arithmetic (\<open>word_pix_length\<close>).
  A word that is not the newline, wider than the canvas in that measure, met with a
  budget of at most the canvas width (which \<open>wrap_loop_budget\<close> shows it to be along the
  loop) and with a positive letter height, is split into exactly
  \<open>ceil(word_pixels / W)\<close> fragments; fragment \<open>idx\<close> is the \<open>floor(W / letter_height)\<close>
  characters of the word from position \<open>idx * floor(W / letter_height)\<close> on (fewer, or
  none, where the word ends), and each fragment is alone on a line of its own, in order,
  the first one on the current line if that is still empty. The witness is the
  specification's example: 30 letters \<^verbatim>\<open>m\<close> at the width 100 are 301 pixels long and
  give the four lines \<^verbatim>\<open>mmmmm\<close>, so that the last 10 letters are lost.
\<close>

theorem forced_split:
  assumes "fst w \<noteq> [NEWLINE]"
    and "IMAGE_PIX_WIDTH tp < word_pix_length w"
    and "line_pix_len st \<le> IMAGE_PIX_WIDTH tp"
    and "0 < IMAGE_PIX_WIDTH tp"
    and "0 < letter_height (snd w)"
    and "table st \<noteq> []"
  shows "\<exists>st'. wrap_step tp st w = Inr st' \<and>
           table st' =
             (if last (table st) = [] then butlast (table st) else table st)
             @ map (\<lambda>idx. [(take (nat \<lfloor>of_int (IMAGE_PIX_WIDTH tp)
                                         / (of_int (letter_height (snd w)) :: rat)\<rfloor>)
                               (drop (idx * nat \<lfloor>of_int (IMAGE_PIX_WIDTH tp)
                                         / (of_int (letter_height (snd w)) :: rat)\<rfloor>)
                                  (fst w)),
                             snd w)])
                 [0..<nat \<lceil>of_int (word_pix_length w) / (of_int (IMAGE_PIX_WIDTH tp) :: rat)\<rceil>]"
proof -
  let ?W = "IMAGE_PIX_WIDTH tp"
  let ?k = "?W div letter_height (snd w)"
  let ?n = "nat ((word_pix_length w - 1) div ?W + 1)"
  have step: "wrap_step tp st w = Inr (foldl (add_part tp w ?k) st (map int [0..<?n]))"
    using assms by (simp add: wrap_step_def Let_def)
  have n: "0 < ?n" using assms(2,4) by (intro lines_count_pos) simp_all
  have k: "0 \<le> ?k" using assms(4,5) by (simp add: pos_imp_zdiv_nonneg_iff)
  have tbl: "table (foldl (add_part tp w ?k) st (map int [0..<?n])) =
           (if last (table st) = [] then butlast (table st) else table st)
           @ map (\<lambda>i. [(py_slice (fst w) (int i * ?k) ((int i + 1) * ?k), snd w)]) [0..<?n]"
    using assms(6) n by (rule forced_split_table)
  show ?thesis
    unfolding step
    using tbl
    by (simp add: py_slice_take_drop [OF k] lines_count_ceiling [OF assms(4), symmetric]
          part_len_floor [symmetric])
qed

theorem forced_split_witness:
  "word_pix_length (replicate 30 109, font_A) = 301
   \<and> (\<exists>st'. wrap_step font_A_processor (wrapper_init font_A_processor)
               (replicate 30 109, font_A) = Inr st'
         \<and> table st' = [[(replicate 5 109, font_A)], [(replicate 5 109, font_A)],
                         [(replicate 5 109, font_A)], [(replicate 5 109, font_A)]])
   \<and> word_table font_A_processor (replicate 30 109) =
       Inr [[(replicate 5 109, font_A)], [(replicate 5 109, font_A)],
            [(replicate 5 109, font_A)], [(replicate 5 109, font_A)]]"
proof -
  let ?w = "(replicate 30 109, font_A)"
  let ?st = "wrapper_init font_A_processor"
  have len: "word_pix_length ?w = 301" by (simp add: word_pix_length_font_A)
  have h1: "fst ?w \<noteq> [NEWLINE]" by (simp add: replicate_30_not_newline)
  have h2: "IMAGE_PIX_WIDTH font_A_processor < word_pix_length ?w"
    by (simp add: len width_font_A_processor)
  have h3: "line_pix_len ?st \<le> IMAGE_PIX_WIDTH font_A_processor"
    by (simp add: wrapper_init_def)
  have h4: "0 < IMAGE_PIX_WIDTH font_A_processor" by (simp add: width_font_A_processor)
  have h5: "0 < letter_height (snd ?w)" by (simp add: font_A_def)
  have h6: "table ?st \<noteq> []" by (simp add: wrapper_init_def)
  have lh: "letter_height font_A = 20" by (simp add: font_A_def)
  have step: "\<exists>st'. wrap_step font_A_processor ?st ?w = Inr st'
         \<and> table st' = [[(replicate 5 109, font_A)], [(replicate 5 109, font_A)],
                         [(replicate 5 109, font_A)], [(replicate 5 109, font_A)]]"
    using forced_split [OF h1 h2 h3 h4 h5 h6]
    by (simp add: word_pix_length_font_A width_font_A_processor lh ceiling_301_100 upt_0_4
          wrapper_init_def replicate_30 replicate_5)
  then obtain st' where st': "wrap_step font_A_processor ?st ?w = Inr st'"
    "table st' = [[(replicate 5 109, font_A)], [(replicate 5 109, font_A)],
                  [(replicate 5 109, font_A)], [(replicate 5 109, font_A)]]"
    by blast
  have "word_table font_A_processor (replicate 30 109) = Inr (table st')"
    by (simp add: word_table_def text_words_30m st'(1))
  then show ?thesis using len step st'(2) by simp
qed

text \<open>
  With the specification's pixel length \<open>ceil(len * width) + 1\<close> the rule fails, with the
  source's constants and floats that are all exact. The word of 21 letters of a font
  129.5 pixels wide is 2721 pixels long for the specification, more than the canvas
  width 2720, and the code places it whole on the first line. The word of 43 letters of
  a font 126.5 pixels wide is 5441 pixels long for the specification, which asks for
  \<open>ceil(5441 / 2720) = 3\<close> fragments, and the code makes two.
\<close>

theorem forced_split_ceil_counterexample:
  "spec_word_pixels (replicate 21 97, font_W) = 2721
   \<and> IMAGE_PIX_WIDTH (source_processor [font_W]) = 2720
   \<and> wrap_step (source_processor [font_W]) (wrapper_init (source_processor [font_W]))
         (replicate 21 97, font_W) =
       Inr \<lparr>table = [[(replicate 21 97, font_W)]], line_pix_len = 0\<rparr>
   \<and> \<lceil>of_int (spec_word_pixels (replicate 43 97, font_V))
        / (of_int (IMAGE_PIX_WIDTH (source_processor [font_V])) :: rat)\<rceil> = 3
   \<and> wrap_step (source_processor [font_V]) (wrapper_init (source_processor [font_V]))
         (replicate 43 97, font_V) =
       Inr \<lparr>table = [[(replicate 20 97, font_V)], [(replicate 20 97, font_V)]],
            line_pix_len = - 2720\<rparr>"
  by (simp add: spec_word_pixels_21a width_source_processor wrap_step_21a spec_word_pixels_43a
        ceiling_5441_2720 wrap_step_43a)

text \<open>
  C6. The text \<^verbatim>\<open>ab\ncd\<close> gives the two lines \<^verbatim>\<open>ab\<close> and \<^verbatim>\<open>cd\<close>; no word of any
  line of any table contains a newline, so the newline word is never placed; and the
  newline word starts a new line, at the full budget, exactly when the current line
  is not empty, and changes nothing otherwise.
\<close>

theorem newline_starts_line:
  "word_table font_A_processor (ascii ''ab\<newline>cd'') =
     Inr [[(ascii ''ab'', font_A)], [(ascii ''cd'', font_A)]]
   \<and> (word_table tp text = Inr tbl \<longrightarrow>
        (\<forall>l \<in> set tbl. \<forall>p \<in> set l. NEWLINE \<notin> set (fst p)))
   \<and> wrap_step tp st ([NEWLINE], f) =
       Inr (if last (table st) \<noteq> []
            then st\<lparr>table := table st @ [[]], line_pix_len := IMAGE_PIX_WIDTH tp\<rparr>
            else st)"
  using word_table_ab_cd table_no_newline [of tp "text" tbl]
  by (simp add: wrap_step_def newline_def)

theorem newline_starts_line_witness:
  "word_table font_A_processor (ascii ''ab\<newline>cd'') =
     Inr [[(ascii ''ab'', font_A)], [(ascii ''cd'', font_A)]]
   \<and> NEWLINE \<notin> set (ascii ''ab'') \<and> NEWLINE \<notin> set (ascii ''cd'')
   \<and> wrap_step font_A_processor \<lparr>table = [[(ascii ''ab'', font_A)]], line_pix_len = 79\<rparr>
         ([NEWLINE], font_A) =
       Inr \<lparr>table = [[(ascii ''ab'', font_A)], []], line_pix_len = 100\<rparr>
   \<and> wrap_step font_A_processor \<lparr>table = [[(ascii ''ab'', font_A)], []], line_pix_len = 100\<rparr>
         ([NEWLINE], font_A) =
       Inr \<lparr>table = [[(ascii ''ab'', font_A)], []], line_pix_len = 100\<rparr>"
  using newline_starts_line [of font_A_processor "ascii ''ab\<newline>cd''"
          "[[(ascii ''ab'', font_A)], [(ascii ''cd'', font_A)]]"
          "\<lparr>table = [[(ascii ''ab'', font_A)]], line_pix_len = 79\<rparr>" font_A]
        newline_starts_line [of font_A_processor "ascii ''ab\<newline>cd''"
          "[[(ascii ''ab'', font_A)], [(ascii ''cd'', font_A)]]"
          "\<lparr>table = [[(ascii ''ab'', font_A)], []], line_pix_len = 100\<rparr>" font_A]
  by (simp add: width_font_A_processor)

text \<open>
  C9. In every table \<^verbatim>\<open>word_table\<close> returns, every line but the last is non-empty (so
  no two empty lines follow each other), and the last line is empty only if the last
  word processed is the literal newline.
\<close>

theorem table_lines_nonempty:
  assumes "word_table tp text = Inr tbl"
  shows "tbl \<noteq> [] \<and> (\<forall>l \<in> set (butlast tbl). l \<noteq> []) \<and>
         (last tbl = [] \<longrightarrow>
            (\<exists>ws. text_words tp text = Inr ws \<and> ws \<noteq> [] \<and> fst (last ws) = [NEWLINE]))"
proof -
  from assms obtain ws st where f: "text_words tp text = Inr ws" "ws \<noteq> []"
    "wrap_loop tp (wrapper_init tp) ws = Inr st" "tbl = table st" "wrap_inv st"
    by (rule word_table_inv)
  have a: "tbl \<noteq> []" "\<forall>l \<in> set (butlast tbl). l \<noteq> []"
    using f(4,5) by (simp_all add: wrap_inv_def)
  have b: "fst (last ws) = [NEWLINE]" if e: "last tbl = []"
  proof (rule ccontr)
    assume n: "fst (last ws) \<noteq> [NEWLINE]"
    have ws: "ws = butlast ws @ [last ws]" using f(2) by simp
    have "wrap_loop tp (wrapper_init tp) (butlast ws @ [last ws]) = Inr st"
      using f(3) ws by simp
    then obtain s where "wrap_step tp s (last ws) = Inr st"
      unfolding wrap_loop_snoc by (cases "wrap_loop tp (wrapper_init tp) (butlast ws)") simp_all
    then have "last (table st) \<noteq> []" using n by (rule wrap_step_last_nonempty)
    with e f(4) show False by simp
  qed
  show ?thesis using a b f(1,2) by blast
qed

theorem table_lines_nonempty_witness:
  "word_table font_A_processor [97, 98, NEWLINE, VARIATION_SELECTOR_16] =
     Inr [[([97, 98], font_A)], []]
   \<and> [([97, 98], font_A)] \<noteq> []
   \<and> (\<exists>ws. text_words font_A_processor [97, 98, NEWLINE, VARIATION_SELECTOR_16] = Inr ws
            \<and> ws \<noteq> [] \<and> fst (last ws) = [NEWLINE])"
  using table_lines_nonempty [OF word_table_ab_nl]
  by (simp add: word_table_ab_nl)




section \<open>Errors of the pipeline\<close>

lemma compile_text_error: "compile_text tp text = Inl e \<Longrightarrow> e \<noteq> NothingToPrint"
  by (auto simp: compile_text_def Let_def split: sum.splits list.splits dest: word_table_error)

lemma resize_img_error:
  "resize_img img = Inl e \<Longrightarrow> e = ZeroDivisionError \<or> e = ValueError"
  by (auto simp: resize_img_def Let_def split: prod.splits if_splits)

text \<open>
  \<^verbatim>\<open>resize_img\<close> computes in floats: a photo of 1200 by 880 pixels is resized to the
  height \<open>int(439.99999999999994) = 439\<close>, not to 440; a photo of 1300 by 1 pixels asks
  for the height 0, which \<^verbatim>\<open>Image.resize\<close> refuses.
\<close>

lemma fl_880_1200: "fl (of_int 880 / of_int 1200) = 6605279453476727 / 9007199254740992"
  using fl_eval [of "- 1" "880 / 1200" 6605279453476727]
  by (simp add: power_int_minus)

lemma fl_880_1200_600:
  "fl (6605279453476727 / 9007199254740992 * of_int 600) = 7740561859543039 / 17592186044416"
  using fl_eval [of 8 "6605279453476727 / 9007199254740992 * 600" 7740561859543039]
  by (simp add: power_int_minus)

lemma resize_img_1200_880:
  "resize_img (Photo (1200, 880)) = Inr (Resized (600, 439) (Photo (1200, 880)))"
proof -
  have t: "py_int (7740561859543039 / 17592186044416) = 439"
    by (simp add: py_int_def floor_eq_iff)
  show ?thesis
    unfolding resize_img_def image_size.simps prod.case CITIZEN_CT_S2000_WIDTH_def
      fl_880_1200 fl_880_1200_600 t
    by simp
qed

lemma fl_1_1300: "fl (of_int 1 / of_int 1300) = 3547450783405683 / 4611686018427387904"
  using fl_eval [of "- 11" "1 / 1300" 7094901566811366]
  by (simp add: power_int_minus)

lemma fl_1_1300_600:
  "fl (3547450783405683 / 4611686018427387904 * of_int 600) =
     4157168886803535 / 9007199254740992"
  using fl_eval [of "- 2" "3547450783405683 / 4611686018427387904 * 600" 8314337773607070]
  by (simp add: power_int_minus)

lemma resize_img_1300_1: "resize_img (Photo (1300, 1)) = Inl ValueError"
proof -
  have t: "py_int (4157168886803535 / 9007199254740992) = 0"
    by (simp add: py_int_def floor_eq_iff)
  show ?thesis
    unfolding resize_img_def image_size.simps prod.case CITIZEN_CT_S2000_WIDTH_def
      fl_1_1300 fl_1_1300_600 t
    by simp
qed

lemma strip_blank: "set text \<subseteq> {SPACE, NEWLINE} \<Longrightarrow> strip [SPACE, NEWLINE] text = []"
proof -
  assume a: "set text \<subseteq> {SPACE, NEWLINE}"
  then have "\<forall>c\<in>set text. c \<in> set [SPACE, NEWLINE]" by auto
  then have d: "dropWhile (\<lambda>c. c \<in> set [SPACE, NEWLINE]) text = []"
    by (simp only: dropWhile_eq_Nil_conv)
  show ?thesis unfolding strip_def d by simp
qed

text \<open>
  C5 does not hold of the code. On a text that is empty or has only spaces and
  newlines, \<^verbatim>\<open>letters\<close> returns the empty list and \<^verbatim>\<open>words\<close> raises IndexError at
  \<^verbatim>\<open>letters[0][1]\<close>, before \<^verbatim>\<open>word_table\<close> reaches its loop: the table \<^verbatim>\<open>[[]]\<close> it starts
  from is never returned, and \<^verbatim>\<open>compile_text\<close> makes no canvas.
\<close>

theorem blank_text_raises:
  assumes "set text \<subseteq> {SPACE, NEWLINE}"
  shows "word_table tp text = Inl IndexError \<and> compile_text tp text = Inl IndexError"
  using strip_blank [OF assms]
  by (simp add: compile_text_def word_table_def text_words_def letters_def words_def)

theorem blank_text_raises_witness:
  "word_table font_A_processor [SPACE] = Inl IndexError
   \<and> compile_text font_A_processor [SPACE] = Inl IndexError
   \<and> word_table font_A_processor [] = Inl IndexError
   \<and> compile_text font_A_processor [NEWLINE, SPACE] = Inl IndexError"
  using blank_text_raises [of "[SPACE]" font_A_processor]
    blank_text_raises [of "[]" font_A_processor]
    blank_text_raises [of "[NEWLINE, SPACE]" font_A_processor]
  by simp

section \<open>Properties of \<^verbatim>\<open>citizen_print_msg\<close>\<close>

text \<open>
  C8. \<^verbatim>\<open>citizen_print_msg\<close> raises NothingToPrint exactly when the text and the image
  are both absent, where the function's own test (\<^verbatim>\<open>not text and not img\<close>) takes a text
  that is \<^verbatim>\<open>None\<close> or the empty string as absent; and when it raises NothingToPrint
  nothing has happened: no call of \<^verbatim>\<open>compile_text\<close> and no call of the printer.
\<close>

theorem nothing_to_print_iff:
  "(fst (citizen_print_msg tp text img user_name) = Inl NothingToPrint
      \<longleftrightarrow> not_text text \<and> img = None)
   \<and> (fst (citizen_print_msg tp text img user_name) = Inl NothingToPrint
      \<longrightarrow> snd (citizen_print_msg tp text img user_name) = [])"
proof (cases "not_text text \<and> img = None")
  case True
  then show ?thesis by (simp add: citizen_print_msg_def)
next
  case False
  have "fst (citizen_print_msg tp text img user_name) \<noteq> Inl NothingToPrint"
    using False
    by (auto simp: citizen_print_msg_def split: option.splits sum.splits
             dest: resize_img_error compile_text_error)
  with False show ?thesis by simp
qed

theorem nothing_to_print_iff_witness:
  "fst (citizen_print_msg font_A_processor None None (ascii ''bob'')) = Inl NothingToPrint
   \<and> snd (citizen_print_msg font_A_processor None None (ascii ''bob'')) = []
   \<and> fst (citizen_print_msg font_A_processor (Some []) None (ascii ''bob'')) = Inl NothingToPrint
   \<and> fst (citizen_print_msg font_A_processor (Some (ascii ''ab'')) None (ascii ''bob''))
       \<noteq> Inl NothingToPrint
   \<and> fst (citizen_print_msg font_A_processor None (Some (Photo (640, 480))) (ascii ''bob''))
       \<noteq> Inl NothingToPrint"
  using nothing_to_print_iff [of font_A_processor None None "ascii ''bob''"]
    nothing_to_print_iff [of font_A_processor "Some []" None "ascii ''bob''"]
    nothing_to_print_iff [of font_A_processor "Some (ascii ''ab'')" None "ascii ''bob''"]
    nothing_to_print_iff [of font_A_processor None "Some (Photo (640, 480))" "ascii ''bob''"]
  by (simp add: not_text_def ascii_def)

section \<open>Properties of \<^verbatim>\<open>User.get_msg_count\<close>\<close>

text \<open>
  C10. For a name with no row, \<^verbatim>\<open>get_msg_count\<close> creates the row, with the default
  counter 1, and returns 1; for a name whose row holds a counter, it returns the counter
  and leaves the table as it is.
\<close>

theorem get_msg_count_spec:
  "(db name = None \<longrightarrow>
      get_msg_count db name = (Inr 1, db(name \<mapsto> Some 1)))
   \<and> (db name = Some (Some c) \<longrightarrow> get_msg_count db name = (Inr c, db))"
  by (simp add: get_msg_count_def create_def messages_count_default_def)

theorem get_msg_count_spec_witness:
  "get_msg_count Map.empty ''bob'' = (Inr 1, [''bob'' \<mapsto> Some 1])
   \<and> get_msg_count [''bob'' \<mapsto> Some 5] ''bob'' = (Inr 5, [''bob'' \<mapsto> Some 5])"
  using get_msg_count_spec [of Map.empty "''bob''"]
        get_msg_count_spec [of "[''bob'' \<mapsto> Some 5]" "''bob''" 5]
  by simp

end
